theory Spec2Isabelle
  imports Complex_Main "HOL-Library.Word" "HOL-Library.List_Lexorder" "HOL-Library.Char_ord"
begin

section \<open>The phenotype trie of pheno\_happiness/main.c\<close>

text \<open>
  The program is a prefix tree over C strings. Every trie node owns an AVL tree of its
  children, keyed by one \<^verbatim>\<open>char\<close>, and a terminal node owns a \<^verbatim>\<open>Phenotype\<close>.

  Conventions of the embedding.
  \<^item> A key is the sequence of symbols of the C string before its terminating NUL. The code
    only compares symbols with \<^verbatim>\<open><\<close>, \<^verbatim>\<open>>\<close> and \<^verbatim>\<open>==\<close>, so the symbol type is any linear
    order \<open>'k\<close>: this covers \<^verbatim>\<open>char\<close> both as a signed and as an unsigned type.
  \<^item> \<^verbatim>\<open>double score\<close> is only stored and copied, never computed with: it is a value of
    an arbitrary type \<open>'d\<close>.
  \<^item> \<^verbatim>\<open>uint64_t visits\<close> is a 64-bit word, so \<^verbatim>\<open>visits++\<close> wraps around.
  \<^item> \<^verbatim>\<open>QualFlags qual\<close> is an enum used as a bit set, stored in a 32-bit word.
  \<^item> The field \<^verbatim>\<open>char *meta\<close> of a payload is \<open>None\<close> for NULL (or for a text that was
    freed) and \<open>Some s\<close> for the text the payload owns.
  \<^item> The argument \<^verbatim>\<open>const char *meta\<close> of \<^verbatim>\<open>patrie_insert\<close> is a borrowed pointer, and the
    code frees a text before it reads the argument: the model says where the pointer
    points (\<open>meta_ptr\<close>), so that a pointer into the text that is freed is a case of
    its own.
  \<^item> \<^verbatim>\<open>int height\<close> is an \<open>int\<close>.
  \<^item> The structure is a tree of exclusively owned nodes, so it is a value: a function that
    mutates through a pointer returns the new tree. A \<^verbatim>\<open>TrieNode *\<close> stored in an
    AVL entry is never NULL (the only place that stores one stores the result of
    \<^verbatim>\<open>trie_node_new\<close>), so an entry holds a node, and the tests \<^verbatim>\<open>if (!node)\<close> of
    \<^verbatim>\<open>trie_dfs\<close> and \<^verbatim>\<open>cur &&\<close> of \<^verbatim>\<open>patrie_lookup\<close> have no branch.
  \<^item> Dereferencing a NULL pointer is the result \<open>Inl NullDeref\<close>; reading through a
    pointer to memory that was freed, or that never held a text, is \<open>Inl InvalidRead\<close>.
    Both are undefined behaviour in C: nothing is said of the state after them.
  \<^item> \<^verbatim>\<open>malloc\<close> is taken to succeed (the program exits when it does not).
\<close>

subsection \<open>Domain types\<close>

record 'd Phenotype =
  score :: 'd
  visits :: "64 word"
  qual :: "32 word"
  meta :: "string option"

datatype ('k, 'n) AVLChild =
  Null
| AVLChild 'k 'n int "('k, 'n) AVLChild" "('k, 'n) AVLChild"
  \<comment> \<open>key, child, height, left, right\<close>

datatype ('k, 'd) TrieNode =
  TrieNode (terminal: bool) (pheno: "'d Phenotype option")
    (children: "('k, ('k, 'd) TrieNode) AVLChild")

datatype fault = NullDeref | InvalidRead

text \<open>
  Where the \<^verbatim>\<open>meta\<close> argument of an insert of a key points:
  \<^item> \<open>NullPtr\<close>: nowhere, it is NULL;
  \<^item> \<open>Outside s\<close>: to a text \<open>s\<close> that is not the text owned by the payload stored under
    that key (a literal, memory of the caller, the text of another payload);
  \<^item> \<open>IntoOwnMeta n\<close>: \<open>n\<close> bytes into the text owned by the payload stored under that
    key, as in \<^verbatim>\<open>patrie_lookup(root, key)->meta + n\<close>.
\<close>

datatype meta_ptr = NullPtr | Outside string | IntoOwnMeta nat

subsection \<open>Utility\<close>

text \<open>The \<^verbatim>\<open>max\<close> of the program, on \<^verbatim>\<open>int\<close>.\<close>

definition max_int :: "int \<Rightarrow> int \<Rightarrow> int" where
  "max_int a b = (if a > b then a else b)"

fun height_avl :: "('k, 'n) AVLChild \<Rightarrow> int" where
  "height_avl Null = 0"
| "height_avl (AVLChild k c h l r) = h"

fun update_height :: "('k, 'n) AVLChild \<Rightarrow> ('k, 'n) AVLChild" where
  "update_height Null = Null"
| "update_height (AVLChild k c h l r) =
     AVLChild k c (1 + max_int (height_avl l) (height_avl r)) l r"

fun balance_factor :: "('k, 'n) AVLChild \<Rightarrow> int" where
  "balance_factor Null = 0"
| "balance_factor (AVLChild k c h l r) = height_avl l - height_avl r"

subsection \<open>The AVL tree of children\<close>

text \<open>
  \<^verbatim>\<open>rotate_right(y)\<close> reads \<^verbatim>\<open>y->left->right\<close>: it faults when \<^verbatim>\<open>y\<close> or \<^verbatim>\<open>y->left\<close> is
  NULL. The heights are recomputed first for \<^verbatim>\<open>y\<close>, then for \<^verbatim>\<open>x\<close>.
\<close>

fun rotate_right :: "('k, 'n) AVLChild \<Rightarrow> fault + ('k, 'n) AVLChild" where
  "rotate_right (AVLChild yk yc yh (AVLChild xk xc xh xl T2) yr) =
     Inr (update_height (AVLChild xk xc xh xl (update_height (AVLChild yk yc yh T2 yr))))"
| "rotate_right _ = Inl NullDeref"

fun rotate_left :: "('k, 'n) AVLChild \<Rightarrow> fault + ('k, 'n) AVLChild" where
  "rotate_left (AVLChild xk xc xh xl (AVLChild yk yc yh T2 yr)) =
     Inr (update_height (AVLChild yk yc yh (update_height (AVLChild xk xc xh xl T2)) yr))"
| "rotate_left _ = Inl NullDeref"

text \<open>
  Lines 77 to 84 of \<^verbatim>\<open>avl_insert_child\<close>, which both recursive branches run on the way
  back: recompute the height of \<^verbatim>\<open>root\<close>, then test the four imbalances. The tests with
  \<^verbatim>\<open>bf > 1\<close> read \<^verbatim>\<open>root->left->key\<close>, those with \<^verbatim>\<open>bf < -1\<close> read
  \<^verbatim>\<open>root->right->key\<close>; the two groups exclude each other, so they are grouped by the
  sign of \<^verbatim>\<open>bf\<close>. \<^verbatim>\<open>root\<close> is not NULL there (the caller has read \<^verbatim>\<open>root->key\<close>).
\<close>

definition avl_rebalance :: "('k::linorder, 'n) AVLChild \<Rightarrow> 'k \<Rightarrow> fault + ('k, 'n) AVLChild" where
  "avl_rebalance rt0 key =
     (let rt = update_height rt0; bf = balance_factor rt
      in case rt of
           Null \<Rightarrow> Inl NullDeref
         | AVLChild k c h l r \<Rightarrow>
             if bf > 1 then
               (case l of
                  Null \<Rightarrow> Inl NullDeref
                | AVLChild lk lc lh ll lr \<Rightarrow>
                    if key < lk then rotate_right rt
                    else if key > lk then
                      (case rotate_left l of
                         Inl e \<Rightarrow> Inl e
                       | Inr l' \<Rightarrow> rotate_right (AVLChild k c h l' r))
                    else Inr rt)
             else if bf < - 1 then
               (case r of
                  Null \<Rightarrow> Inl NullDeref
                | AVLChild rk rc rh rl rr \<Rightarrow>
                    if key > rk then rotate_left rt
                    else if key < rk then
                      (case rotate_right r of
                         Inl e \<Rightarrow> Inl e
                       | Inr r' \<Rightarrow> rotate_left (AVLChild k c h l r'))
                    else Inr rt)
             else Inr rt)"

fun avl_insert_child ::
  "('k::linorder, 'n) AVLChild \<Rightarrow> 'k \<Rightarrow> 'n \<Rightarrow> fault + ('k, 'n) AVLChild" where
  "avl_insert_child Null key child = Inr (AVLChild key child 1 Null Null)"
| "avl_insert_child (AVLChild k c h l r) key child =
     (if key < k then
        (case avl_insert_child l key child of
           Inl e \<Rightarrow> Inl e
         | Inr l' \<Rightarrow> avl_rebalance (AVLChild k c h l' r) key)
      else if key > k then
        (case avl_insert_child r key child of
           Inl e \<Rightarrow> Inl e
         | Inr r' \<Rightarrow> avl_rebalance (AVLChild k c h l r') key)
      else Inr (AVLChild k child h l r))"

text \<open>
  \<^verbatim>\<open>avl_find_child\<close> returns a pointer to the entry or NULL. Its callers only test the
  pointer and read \<^verbatim>\<open>ac->child\<close>, so the model returns the child of the entry.
\<close>

fun avl_find_child :: "('k::linorder, 'n) AVLChild \<Rightarrow> 'k \<Rightarrow> 'n option" where
  "avl_find_child Null key = None"
| "avl_find_child (AVLChild k c h l r) key =
     (if key = k then Some c
      else avl_find_child (if key < k then l else r) key)"

text \<open>
  The callers of \<^verbatim>\<open>avl_find_child\<close> go on to mutate the node \<^verbatim>\<open>ac->child\<close> in place. In
  the value model the mutated node is written back to the entry that the search reached:
  \<open>avl_store_child\<close> follows the path of \<open>avl_find_child\<close> and replaces the child there,
  leaving keys, heights and shape alone.
\<close>

fun avl_store_child :: "('k::linorder, 'n) AVLChild \<Rightarrow> 'k \<Rightarrow> 'n \<Rightarrow> ('k, 'n) AVLChild" where
  "avl_store_child Null key n = Null"
| "avl_store_child (AVLChild k c h l r) key n =
     (if key = k then AVLChild k n h l r
      else if key < k then AVLChild k c h (avl_store_child l key n) r
      else AVLChild k c h l (avl_store_child r key n))"

text \<open>
  \<^verbatim>\<open>avl_inorder(root, fn, ctx)\<close>: the visitor mutates the context it is handed; the
  model threads the context through the calls.
\<close>

fun avl_inorder :: "('k, 'n) AVLChild \<Rightarrow> ('k \<Rightarrow> 'n \<Rightarrow> 'c \<Rightarrow> 'c) \<Rightarrow> 'c \<Rightarrow> 'c" where
  "avl_inorder Null fn ctx = ctx"
| "avl_inorder (AVLChild k c h l r) fn ctx =
     avl_inorder r fn (fn k c (avl_inorder l fn ctx))"

subsection \<open>Trie and phenotype\<close>

definition trie_node_new :: "('k, 'd) TrieNode" where
  "trie_node_new = TrieNode False None Null"

text \<open>
  \<^verbatim>\<open>meta ? my_strdup(meta) : NULL\<close>, as both \<^verbatim>\<open>phenotype_new\<close> and \<^verbatim>\<open>patrie_insert\<close>
  write it: the copy of the text read through the pointer. \<open>own\<close> is the text that the
  payload of the key owns at the time of the read, \<open>None\<close> when there is no payload, when
  its \<^verbatim>\<open>meta\<close> is NULL and when the text was freed.
\<close>

fun my_strdup :: "string option \<Rightarrow> meta_ptr \<Rightarrow> fault + string option" where
  "my_strdup own NullPtr = Inr None"
| "my_strdup own (Outside s) = Inr (Some s)"
| "my_strdup own (IntoOwnMeta n) =
     (case own of
        None \<Rightarrow> Inl InvalidRead
      | Some s \<Rightarrow> if n \<le> length s then Inr (Some (drop n s)) else Inl InvalidRead)"

text \<open>
  \<^verbatim>\<open>phenotype_new\<close> is called for a node without payload, so the key owns no text then.
\<close>

definition phenotype_new :: "'d \<Rightarrow> 32 word \<Rightarrow> meta_ptr \<Rightarrow> fault + 'd Phenotype" where
  "phenotype_new sc q m =
     (case my_strdup None m of
        Inl e \<Rightarrow> Inl e
      | Inr txt \<Rightarrow> Inr \<lparr>score = sc, visits = 0, qual = q, meta = txt\<rparr>)"

text \<open>
  Lines 137 to 143 of \<^verbatim>\<open>patrie_insert\<close>, one turn of its loop: find the child for
  \<^verbatim>\<open>ch\<close>; when there is none, insert a new node and search again. The result is the
  child set after the step and the node the loop descends into. The second search
  returning NULL makes \<^verbatim>\<open>ac->child\<close> a fault.
\<close>

definition insert_or_get ::
  "('k::linorder, ('k, 'd) TrieNode) AVLChild \<Rightarrow> 'k \<Rightarrow>
   fault + (('k, ('k, 'd) TrieNode) AVLChild \<times> ('k, 'd) TrieNode)" where
  "insert_or_get cs ch =
     (case avl_find_child cs ch of
        Some c \<Rightarrow> Inr (cs, c)
      | None \<Rightarrow>
          (case avl_insert_child cs ch trie_node_new of
             Inl e \<Rightarrow> Inl e
           | Inr cs' \<Rightarrow>
               (case avl_find_child cs' ch of
                  None \<Rightarrow> Inl NullDeref
                | Some c \<Rightarrow> Inr (cs', c))))"

text \<open>
  At the last node the update branch (lines 147 to 152) assigns \<^verbatim>\<open>score\<close> and \<^verbatim>\<open>qual\<close>,
  frees the text of the payload, and only then reads \<^verbatim>\<open>meta\<close> to copy it: the read sees
  a payload that owns no text any more.
\<close>

fun patrie_insert ::
  "('k::linorder, 'd) TrieNode \<Rightarrow> 'k list \<Rightarrow> 'd \<Rightarrow> 32 word \<Rightarrow> meta_ptr \<Rightarrow>
   fault + ('k, 'd) TrieNode" where
  "patrie_insert (TrieNode t p cs) [] sc q m =
     (case p of
        None \<Rightarrow>
          (case phenotype_new sc q m of
             Inl e \<Rightarrow> Inl e
           | Inr ph \<Rightarrow> Inr (TrieNode True (Some ph) cs))
      | Some ph \<Rightarrow>
          (let freed = ph\<lparr>score := sc, qual := q, meta := None\<rparr>
           in case my_strdup (meta freed) m of
                Inl e \<Rightarrow> Inl e
              | Inr txt \<Rightarrow> Inr (TrieNode True (Some (freed\<lparr>meta := txt\<rparr>)) cs)))"
| "patrie_insert (TrieNode t p cs) (ch # key) sc q m =
     (case insert_or_get cs ch of
        Inl e \<Rightarrow> Inl e
      | Inr (cs', c) \<Rightarrow>
          (case patrie_insert c key sc q m of
             Inl e \<Rightarrow> Inl e
           | Inr c' \<Rightarrow> Inr (TrieNode t p (avl_store_child cs' ch c'))))"

text \<open>
  \<^verbatim>\<open>patrie_lookup\<close> returns the payload pointer (NULL for not found) and, through
  \<^verbatim>\<open>visits++\<close>, changes the trie: the model returns both. The payload returned is the one
  the pointer refers to after the increment. A terminal node without payload makes
  \<^verbatim>\<open>cur->p->visits\<close> a fault.
\<close>

fun patrie_lookup ::
  "('k::linorder, 'd) TrieNode \<Rightarrow> 'k list \<Rightarrow>
   fault + ('d Phenotype option \<times> ('k, 'd) TrieNode)" where
  "patrie_lookup (TrieNode t p cs) [] =
     (if t then
        (case p of
           None \<Rightarrow> Inl NullDeref
         | Some ph \<Rightarrow>
             Inr (Some (ph\<lparr>visits := visits ph + 1\<rparr>),
                  TrieNode t (Some (ph\<lparr>visits := visits ph + 1\<rparr>)) cs))
      else Inr (None, TrieNode t p cs))"
| "patrie_lookup (TrieNode t p cs) (ch # key) =
     (case avl_find_child cs ch of
        None \<Rightarrow> Inr (None, TrieNode t p cs)
      | Some c \<Rightarrow>
          (case patrie_lookup c key of
             Inl e \<Rightarrow> Inl e
           | Inr (res, c') \<Rightarrow> Inr (res, TrieNode t p (avl_store_child cs ch c'))))"

subsection \<open>Enumeration\<close>

text \<open>
  The entries of a child set in the order in which \<^verbatim>\<open>avl_inorder\<close> visits them. The
  visitor is only applied to these entries, and a child in a child set is smaller than
  the node that owns the set: with the two lemmas below the recursion of \<^verbatim>\<open>trie_dfs\<close>
  through \<^verbatim>\<open>avl_inorder\<close> is well founded.
\<close>

fun entries :: "('k, 'n) AVLChild \<Rightarrow> ('k \<times> 'n) list" where
  "entries Null = []"
| "entries (AVLChild k c h l r) = entries l @ (k, c) # entries r"

lemma avl_inorder_cong [fundef_cong]:
  "t = t' \<Longrightarrow> (\<And>k c s. (k, c) \<in> set (entries t') \<Longrightarrow> f k c s = g k c s) \<Longrightarrow> s = s'
   \<Longrightarrow> avl_inorder t f s = avl_inorder t' g s'"
  by (induction t' arbitrary: t s s') auto

lemma size_entries:
  "(k, c) \<in> set (entries t) \<Longrightarrow> f c < Suc (size_AVLChild g f t)"
  by (induction t) auto

text \<open>
  \<^verbatim>\<open>EnumCtx\<close>: \<open>buf\<close> is the content \<^verbatim>\<open>buf[0 .. len)\<close> of the growable buffer, so
  \<^verbatim>\<open>buf[len++] = key\<close> appends and \<^verbatim>\<open>len--\<close> drops the last symbol (\<^verbatim>\<open>ensure_buf\<close> only
  grows the capacity). A call \<^verbatim>\<open>cb(buf, node->p, ctx)\<close> of the visitor, made after
  \<^verbatim>\<open>buf[len] = 0\<close>, is recorded in \<open>cb_calls\<close> with the token it reads and the payload
  pointer it is handed, in the order of the calls.
\<close>

record ('k, 'd) EnumCtx =
  buf :: "'k list"
  cb_calls :: "('k list \<times> 'd Phenotype option) list"

function trie_dfs :: "('k, 'd) TrieNode \<Rightarrow> ('k, 'd) EnumCtx \<Rightarrow> ('k, 'd) EnumCtx"
  and visit_tmp_fn :: "'k \<Rightarrow> ('k, 'd) TrieNode \<Rightarrow> ('k, 'd) EnumCtx \<Rightarrow> ('k, 'd) EnumCtx" where
  "trie_dfs (TrieNode t p cs) ec =
     avl_inorder cs visit_tmp_fn
       (if t then ec\<lparr>cb_calls := cb_calls ec @ [(buf ec, p)]\<rparr> else ec)"
| "visit_tmp_fn key child e =
     (let e1 = e\<lparr>buf := buf e @ [key]\<rparr>;
          e2 = trie_dfs child e1
      in e2\<lparr>buf := butlast (buf e2)\<rparr>)"
  by pat_completeness auto
termination
  by (relation "measure (\<lambda>x. case x of Inl (n, _) \<Rightarrow> 2 * size n
                                      | Inr (_, n, _) \<Rightarrow> 2 * size n + 1)")
     (auto dest: size_entries [where f = size and g = "\<lambda>_. 0"])

definition patrie_enumerate ::
  "('k, 'd) TrieNode \<Rightarrow> ('k list \<times> 'd Phenotype option) list" where
  "patrie_enumerate rt = cb_calls (trie_dfs rt \<lparr>buf = [], cb_calls = []\<rparr>)"

subsection \<open>Sequences of operations\<close>

text \<open>
  The states the trie can reach: the program starts from \<^verbatim>\<open>trie_node_new()\<close> and calls
  \<^verbatim>\<open>patrie_insert\<close>, \<^verbatim>\<open>patrie_lookup\<close> and \<^verbatim>\<open>patrie_enumerate\<close> on it. An \<open>Insert\<close>
  of a sequence is a call whose \<^verbatim>\<open>meta\<close> is NULL or a text outside the payload of the key
  (\<open>meta_arg\<close>). A call whose \<^verbatim>\<open>meta\<close> points into the text of the key's own payload
  always ends in \<open>Inl InvalidRead\<close> (lemma \<open>patrie_insert_own_meta\<close>) and leaves no
  state to go on from, so it adds no reachable state.
\<close>

fun meta_arg :: "string option \<Rightarrow> meta_ptr" where
  "meta_arg None = NullPtr"
| "meta_arg (Some s) = Outside s"

datatype ('k, 'd) op =
  Insert "'k list" 'd "32 word" "string option"
| Lookup "'k list"
| Enumerate

fun apply_op :: "('k::linorder, 'd) TrieNode \<Rightarrow> ('k, 'd) op \<Rightarrow> fault + ('k, 'd) TrieNode" where
  "apply_op rt (Insert key sc q m) = patrie_insert rt key sc q (meta_arg m)"
| "apply_op rt (Lookup key) =
     (case patrie_lookup rt key of Inl e \<Rightarrow> Inl e | Inr (res, rt') \<Rightarrow> Inr rt')"
| "apply_op rt Enumerate = Inr rt"

fun run_ops :: "('k::linorder, 'd) TrieNode \<Rightarrow> ('k, 'd) op list \<Rightarrow> fault + ('k, 'd) TrieNode" where
  "run_ops rt [] = Inr rt"
| "run_ops rt (x # xs) =
     (case apply_op rt x of Inl e \<Rightarrow> Inl e | Inr rt' \<Rightarrow> run_ops rt' xs)"

fun inserted_keys :: "('k, 'd) op list \<Rightarrow> 'k list set" where
  "inserted_keys [] = {}"
| "inserted_keys (Insert key sc q m # xs) = insert key (inserted_keys xs)"
| "inserted_keys (x # xs) = inserted_keys xs"

section \<open>Invariants and observations\<close>

text \<open>
  The definitions below are not code of the program: they state its invariants and
  observe its state. A child set is well formed when its keys are strictly ascending in
  the order of traversal (\<open>keys_sorted\<close>) and when every cached height is one more than
  the larger cached height below it, the two sides differing by at most one
  (\<open>avl_ok\<close>). \<open>grew_toward key t\<close> says that the side of the root of \<open>t\<close> on which
  \<open>key\<close> lies is the strictly higher one: it is what lets \<^verbatim>\<open>avl_insert_child\<close> choose
  the rotation by comparing keys.
\<close>

fun avl_ok :: "('k, 'n) AVLChild \<Rightarrow> bool" where
  "avl_ok Null = True"
| "avl_ok (AVLChild k c h l r) =
     (avl_ok l \<and> avl_ok r \<and> h = 1 + max (height_avl l) (height_avl r)
      \<and> \<bar>height_avl l - height_avl r\<bar> \<le> 1)"

fun grew_toward :: "'k::linorder \<Rightarrow> ('k, 'n) AVLChild \<Rightarrow> bool" where
  "grew_toward key Null = False"
| "grew_toward key (AVLChild k c h l r) =
     ((key < k \<and> height_avl l = height_avl r + 1) \<or>
      (key > k \<and> height_avl r = height_avl l + 1))"

definition keys_sorted :: "('k::linorder, 'n) AVLChild \<Rightarrow> bool" where
  "keys_sorted t = sorted_wrt (<) (map fst (entries t))"

text \<open>
  The entries of a child set after a new key was inserted, as a list.
\<close>

fun ins_entry :: "'k::linorder \<Rightarrow> 'n \<Rightarrow> ('k \<times> 'n) list \<Rightarrow> ('k \<times> 'n) list" where
  "ins_entry key n [] = [(key, n)]"
| "ins_entry key n ((k, c) # xs) =
     (if key < k then (key, n) # (k, c) # xs else (k, c) # ins_entry key n xs)"

text \<open>
  The true height of a subtree, and balance stated with it: the two sides differ by at
  most one at every entry, and every cached height is the true height.
\<close>

fun depth :: "('k, 'n) AVLChild \<Rightarrow> int" where
  "depth Null = 0"
| "depth (AVLChild k c h l r) = 1 + max (depth l) (depth r)"

fun avl_balanced :: "('k, 'n) AVLChild \<Rightarrow> bool" where
  "avl_balanced Null = True"
| "avl_balanced (AVLChild k c h l r) =
     (\<bar>depth l - depth r\<bar> \<le> 1 \<and> h = depth (AVLChild k c h l r)
      \<and> avl_balanced l \<and> avl_balanced r)"

text \<open>
  \<open>every_node P n\<close>: \<open>P\<close> holds at \<open>n\<close> and at every node below it. The invariant of
  the trie is that at every node the child set is well formed and the node is terminal
  exactly when it has a payload.
\<close>

function every_node :: "(('k, 'd) TrieNode \<Rightarrow> bool) \<Rightarrow> ('k, 'd) TrieNode \<Rightarrow> bool" where
  "every_node P (TrieNode t p cs) =
     (P (TrieNode t p cs) \<and> (\<forall>(k, c) \<in> set (entries cs). every_node P c))"
  by pat_completeness auto
termination
  by (relation "measure (\<lambda>(P, n). size n)")
     (auto dest: size_entries [where f = size and g = "\<lambda>_. 0"])

definition node_ok :: "('k::linorder, 'd) TrieNode \<Rightarrow> bool" where
  "node_ok n =
     (keys_sorted (children n) \<and> avl_ok (children n) \<and> (terminal n \<longleftrightarrow> pheno n \<noteq> None))"

definition trie_inv :: "('k::linorder, 'd) TrieNode \<Rightarrow> bool" where
  "trie_inv = every_node node_ok"

text \<open>
  \<open>peek t key\<close> is the payload stored under \<open>key\<close>: what \<^verbatim>\<open>patrie_lookup\<close> finds, read
  without incrementing \<^verbatim>\<open>visits\<close>. \<open>bump\<close> is that increment, and
  \<open>stored_by_insert old sc q m\<close> is the payload \<^verbatim>\<open>patrie_insert\<close> leaves at its last
  node when \<open>old\<close> was there and \<^verbatim>\<open>meta\<close> is NULL or a text \<open>m\<close> outside the payload.
\<close>

fun peek :: "('k::linorder, 'd) TrieNode \<Rightarrow> 'k list \<Rightarrow> 'd Phenotype option" where
  "peek (TrieNode t p cs) [] = (if t then p else None)"
| "peek (TrieNode t p cs) (ch # key) =
     (case avl_find_child cs ch of None \<Rightarrow> None | Some c \<Rightarrow> peek c key)"

definition bump :: "'d Phenotype \<Rightarrow> 'd Phenotype" where
  "bump ph = ph\<lparr>visits := visits ph + 1\<rparr>"

definition stored_by_insert ::
  "'d Phenotype option \<Rightarrow> 'd \<Rightarrow> 32 word \<Rightarrow> string option \<Rightarrow> 'd Phenotype" where
  "stored_by_insert old sc q m =
     (case old of None \<Rightarrow> \<lparr>score = sc, visits = 0, qual = q, meta = m\<rparr>
                | Some ph \<Rightarrow> ph\<lparr>score := sc, qual := q, meta := m\<rparr>)"

text \<open>
  The calls of the visitor that \<^verbatim>\<open>trie_dfs\<close> makes below a node, with the keys relative
  to that node.
\<close>

function tokens :: "('k, 'd) TrieNode \<Rightarrow> ('k list \<times> 'd Phenotype option) list" where
  "tokens (TrieNode t p cs) =
     (if t then [([], p)] else []) @
     concat (map (\<lambda>(k, c). map (\<lambda>(ks, po). (k # ks, po)) (tokens c)) (entries cs))"
  by pat_completeness auto
termination
  by (relation "measure size")
     (auto dest: size_entries [where f = size and g = "\<lambda>_. 0"])

text \<open>
  The number of lookups of \<open>key\<close> in a sequence of operations that come after its first
  insert, \<open>None\<close> when the sequence does not insert it; \<open>acc\<close> is the count so far.
\<close>

fun successful_lookups :: "'k list \<Rightarrow> nat option \<Rightarrow> ('k, 'd) op list \<Rightarrow> nat option" where
  "successful_lookups key acc [] = acc"
| "successful_lookups key acc (Insert k sc q m # xs) =
     successful_lookups key (if k = key \<and> acc = None then Some 0 else acc) xs"
| "successful_lookups key acc (Lookup k # xs) =
     successful_lookups key (if k = key then map_option Suc acc else acc) xs"
| "successful_lookups key acc (Enumerate # xs) = successful_lookups key acc xs"

section \<open>The AVL invariant of a child set\<close>

text \<open>
  Insertion into a well-formed child set that lacks the key never faults and gives a
  well-formed child set with the new entry in its place.
\<close>

lemma height_avl_nonneg: "avl_ok t \<Longrightarrow> 0 \<le> height_avl t"
  by (induction t) auto

lemma rebalance_left:
  assumes "avl_ok l'" "avl_ok r"
    and "height_avl l' = hl \<or> height_avl l' = hl + 1"
    and "\<bar>hl - height_avl r\<bar> \<le> 1"
    and "height_avl l' = height_avl r + 2 \<Longrightarrow> grew_toward key l'"
    and "key < k"
  shows "\<exists>t'. avl_rebalance (AVLChild k c h0 l' r) key = Inr t' \<and> avl_ok t'
           \<and> entries t' = entries l' @ (k, c) # entries r
           \<and> (height_avl t' = 1 + max hl (height_avl r)
                \<or> height_avl t' = 2 + max hl (height_avl r) \<and> grew_toward key t')"
proof (cases "height_avl l' = height_avl r + 2")
  case False
  with assms show ?thesis
    by (auto simp: avl_rebalance_def max_int_def Let_def)
next
  case True
  with assms(5) have g: "grew_toward key l'" by simp
  then obtain lk lc lh ll lr where l': "l' = AVLChild lk lc lh ll lr"
    by (cases l') auto
  show ?thesis
  proof (cases "key < lk")
    case True
    with g l' assms(1,2,3,4) \<open>height_avl l' = height_avl r + 2\<close> show ?thesis
      by (auto simp: avl_rebalance_def max_int_def Let_def)
  next
    case False
    with g l' have k: "key > lk" and hh: "height_avl lr = height_avl ll + 1" by auto
    from assms(1) l' have "avl_ok lr" "avl_ok ll" by auto
    with hh height_avl_nonneg [of ll] obtain mk mc mh ml mr where lr: "lr = AVLChild mk mc mh ml mr"
      by (cases lr) auto
    with k hh l' assms(1,2,3,4) \<open>height_avl l' = height_avl r + 2\<close> show ?thesis
      by (auto simp: avl_rebalance_def max_int_def Let_def)
  qed
qed

lemma rebalance_right:
  assumes "avl_ok l" "avl_ok r'"
    and "height_avl r' = hr \<or> height_avl r' = hr + 1"
    and "\<bar>height_avl l - hr\<bar> \<le> 1"
    and "height_avl r' = height_avl l + 2 \<Longrightarrow> grew_toward key r'"
    and "key > k"
  shows "\<exists>t'. avl_rebalance (AVLChild k c h0 l r') key = Inr t' \<and> avl_ok t'
           \<and> entries t' = entries l @ (k, c) # entries r'
           \<and> (height_avl t' = 1 + max (height_avl l) hr
                \<or> height_avl t' = 2 + max (height_avl l) hr \<and> grew_toward key t')"
proof (cases "height_avl r' = height_avl l + 2")
  case False
  with assms show ?thesis
    by (auto simp: avl_rebalance_def max_int_def Let_def)
next
  case True
  with assms(5) have g: "grew_toward key r'" by simp
  then obtain rk rc rh rl rr where r': "r' = AVLChild rk rc rh rl rr"
    by (cases r') auto
  show ?thesis
  proof (cases "key > rk")
    case True
    with g r' assms(1,2,3,4) \<open>height_avl r' = height_avl l + 2\<close> show ?thesis
      by (auto simp: avl_rebalance_def max_int_def Let_def)
  next
    case False
    with g r' have k: "key < rk" and hh: "height_avl rl = height_avl rr + 1" by auto
    from assms(2) r' have "avl_ok rl" "avl_ok rr" by auto
    with hh height_avl_nonneg [of rr] obtain mk mc mh ml mr where rl: "rl = AVLChild mk mc mh ml mr"
      by (cases rl) auto
    with k hh r' assms(1,2,3,4) \<open>height_avl r' = height_avl l + 2\<close> show ?thesis
      by (auto simp: avl_rebalance_def max_int_def Let_def)
  qed
qed

lemma ins_entry_left:
  "key < k \<Longrightarrow> ins_entry key n (xs @ (k, c) # ys) = ins_entry key n xs @ (k, c) # ys"
  by (induction xs) auto

lemma ins_entry_right:
  "\<forall>x \<in> set xs. fst x < key \<Longrightarrow> k < key
   \<Longrightarrow> ins_entry key n (xs @ (k, c) # ys) = xs @ (k, c) # ins_entry key n ys"
  by (induction xs) auto

lemma set_ins_entry: "set (ins_entry key n xs) = insert (key, n) (set xs)"
  by (induction key n xs rule: ins_entry.induct) auto

lemma sorted_ins_entry:
  "sorted_wrt (<) (map fst xs) \<Longrightarrow> key \<notin> fst ` set xs
   \<Longrightarrow> sorted_wrt (<) (map fst (ins_entry key n xs))"
  by (induction key n xs rule: ins_entry.induct) (force simp: set_ins_entry)+

lemma map_of_ins_entry:
  "sorted_wrt (<) (map fst xs) \<Longrightarrow> key \<notin> fst ` set xs
   \<Longrightarrow> map_of (ins_entry key n xs) = (map_of xs)(key \<mapsto> n)"
  by (induction key n xs rule: ins_entry.induct) (force simp: fun_eq_iff)+

lemma avl_insert_child_ok:
  assumes "avl_ok t" "keys_sorted t" "key \<notin> fst ` set (entries t)"
  shows "\<exists>t'. avl_insert_child t key n = Inr t' \<and> avl_ok t'
           \<and> entries t' = ins_entry key n (entries t)
           \<and> (height_avl t' = height_avl t
                \<or> height_avl t' = height_avl t + 1 \<and> (t \<noteq> Null \<longrightarrow> grew_toward key t'))"
  using assms
proof (induction t)
  case Null
  then show ?case by simp
next
  case (AVLChild k c h l r)
  from AVLChild.prems have ok: "avl_ok l" "avl_ok r"
    and h: "h = 1 + max (height_avl l) (height_avl r)"
    and bal: "\<bar>height_avl l - height_avl r\<bar> \<le> 1"
    and sl: "keys_sorted l" and sr: "keys_sorted r"
    and lt: "\<forall>x \<in> set (entries l). fst x < k" and gt: "\<forall>x \<in> set (entries r). k < fst x"
    and nk: "key \<noteq> k" and nl: "key \<notin> fst ` set (entries l)" and nr: "key \<notin> fst ` set (entries r)"
    by (auto simp: keys_sorted_def sorted_wrt_append)
  show ?case
  proof (cases "key < k")
    case True
    from AVLChild.IH(1) [OF ok(1) sl nl] obtain l' where
      l': "avl_insert_child l key n = Inr l'" "avl_ok l'"
        "entries l' = ins_entry key n (entries l)"
        "height_avl l' = height_avl l
           \<or> height_avl l' = height_avl l + 1 \<and> (l \<noteq> Null \<longrightarrow> grew_toward key l')"
      by blast
    have g: "height_avl l' = height_avl r + 2 \<Longrightarrow> grew_toward key l'"
      using l'(4) bal height_avl_nonneg [OF ok(2)] by (cases l) auto
    have "height_avl l' = height_avl l \<or> height_avl l' = height_avl l + 1"
      using l'(4) by auto
    from rebalance_left [OF l'(2) ok(2) this bal g True]
    obtain t' where t': "avl_rebalance (AVLChild k c h l' r) key = Inr t'" "avl_ok t'"
        "entries t' = entries l' @ (k, c) # entries r"
        "height_avl t' = 1 + max (height_avl l) (height_avl r)
           \<or> height_avl t' = 2 + max (height_avl l) (height_avl r) \<and> grew_toward key t'"
      by blast
    with True l' h show ?thesis
      by (auto simp: ins_entry_left)
  next
    case False
    with nk have kk: "k < key" by simp
    from AVLChild.IH(2) [OF ok(2) sr nr] obtain r' where
      r': "avl_insert_child r key n = Inr r'" "avl_ok r'"
        "entries r' = ins_entry key n (entries r)"
        "height_avl r' = height_avl r
           \<or> height_avl r' = height_avl r + 1 \<and> (r \<noteq> Null \<longrightarrow> grew_toward key r')"
      by blast
    have g: "height_avl r' = height_avl l + 2 \<Longrightarrow> grew_toward key r'"
      using r'(4) bal height_avl_nonneg [OF ok(1)] by (cases r) auto
    have "height_avl r' = height_avl r \<or> height_avl r' = height_avl r + 1"
      using r'(4) by auto
    from rebalance_right [OF ok(1) r'(2) this bal g kk]
    obtain t' where t': "avl_rebalance (AVLChild k c h l r') key = Inr t'" "avl_ok t'"
        "entries t' = entries l @ (k, c) # entries r'"
        "height_avl t' = 1 + max (height_avl l) (height_avl r)
           \<or> height_avl t' = 2 + max (height_avl l) (height_avl r) \<and> grew_toward key t'"
      by blast
    have "\<forall>x \<in> set (entries l). fst x < key" using lt kk by auto
    with kk False r' t' h show ?thesis
      by (auto simp: ins_entry_right)
  qed
qed

section \<open>Searching and writing back in a child set\<close>

lemma avl_find_child_map_of:
  "keys_sorted t \<Longrightarrow> avl_find_child t key = map_of (entries t) key"
proof (induction t)
  case Null
  then show ?case by simp
next
  case (AVLChild k c h l r)
  then have sl: "keys_sorted l" and sr: "keys_sorted r"
    and lt: "\<forall>x \<in> set (entries l). fst x < k" and gt: "\<forall>x \<in> set (entries r). k < fst x"
    by (auto simp: keys_sorted_def sorted_wrt_append)
  have nl: "key \<ge> k \<Longrightarrow> map_of (entries l) key = None"
    using lt by (force simp: map_of_eq_None_iff)
  have nr: "key \<le> k \<Longrightarrow> map_of (entries r) key = None"
    using gt by (force simp: map_of_eq_None_iff)
  show ?case
    using AVLChild.IH(1) [OF sl] AVLChild.IH(2) [OF sr] nl nr
    by (auto simp: map_add_def split: option.splits)
qed

lemma avl_store_child_same:
  "avl_find_child cs ch = Some c \<Longrightarrow> avl_store_child cs ch c = cs"
  by (induction cs) (auto split: if_splits)

lemma avl_find_child_store:
  "avl_find_child (avl_store_child cs ch n) ch' =
     (if ch' = ch then map_option (\<lambda>_. n) (avl_find_child cs ch) else avl_find_child cs ch')"
  by (induction cs) auto

lemma height_avl_store [simp]: "height_avl (avl_store_child t ch n) = height_avl t"
  by (cases t) auto

lemma avl_ok_store [simp]: "avl_ok (avl_store_child t ch n) = avl_ok t"
  by (induction t) auto

lemma keys_store [simp]: "map fst (entries (avl_store_child t ch n)) = map fst (entries t)"
  by (induction t) auto

lemma keys_sorted_store [simp]: "keys_sorted (avl_store_child t ch n) = keys_sorted t"
  by (simp add: keys_sorted_def)

lemma set_entries_store:
  "set (entries (avl_store_child t ch n)) \<subseteq> insert (ch, n) (set (entries t))"
  by (induction t) auto

text \<open>
  What \<^verbatim>\<open>avl_insert_child\<close> itself does on a key that is present: it overwrites the
  child of the entry and changes neither shape nor heights. \<^verbatim>\<open>patrie_insert\<close> never
  calls it so.
\<close>

lemma avl_rebalance_balanced:
  "h = 1 + max (height_avl l) (height_avl r) \<Longrightarrow> \<bar>height_avl l - height_avl r\<bar> \<le> 1
   \<Longrightarrow> avl_rebalance (AVLChild k c h l r) key = Inr (AVLChild k c h l r)"
  by (auto simp: avl_rebalance_def max_int_def Let_def)

lemma avl_insert_child_present:
  "avl_ok cs \<Longrightarrow> avl_find_child cs ch = Some c
   \<Longrightarrow> avl_insert_child cs ch n = Inr (avl_store_child cs ch n)"
proof (induction cs)
  case Null
  then show ?case by simp
next
  case (AVLChild k c0 h l r)
  then have ok: "avl_ok l" "avl_ok r" "h = 1 + max (height_avl l) (height_avl r)"
    "\<bar>height_avl l - height_avl r\<bar> \<le> 1"
    by simp_all
  consider "ch = k" | "ch < k" | "k < ch" by (metis not_less_iff_gr_or_eq)
  then show ?case
  proof cases
    case 1
    then show ?thesis by simp
  next
    case 2
    with AVLChild.prems(2) have "avl_find_child l ch = Some c" by (auto split: if_splits)
    from AVLChild.IH(1) [OF ok(1) this] 2 ok(3,4) show ?thesis
      by (auto simp: avl_rebalance_balanced)
  next
    case 3
    with AVLChild.prems(2) have "avl_find_child r ch = Some c" by (auto split: if_splits)
    from AVLChild.IH(2) [OF ok(2) this] 3 ok(3,4) show ?thesis
      by (auto simp: avl_rebalance_balanced)
  qed
qed

lemma every_node_mono:
  "every_node P n \<Longrightarrow> (\<And>m. P m \<Longrightarrow> Q m) \<Longrightarrow> every_node Q n"
  by (induction P n rule: every_node.induct) auto

lemma trie_inv_simp:
  "trie_inv (TrieNode t p cs) =
     (keys_sorted cs \<and> avl_ok cs \<and> (t \<longleftrightarrow> p \<noteq> None)
      \<and> (\<forall>(k, c) \<in> set (entries cs). trie_inv c))"
  by (simp add: trie_inv_def node_ok_def)

lemma trie_inv_new: "trie_inv trie_node_new"
  by (simp add: trie_inv_simp trie_node_new_def keys_sorted_def)

lemma peek_new: "peek trie_node_new key = None"
  by (cases key) (simp_all add: trie_node_new_def)

lemma find_in_entries:
  "keys_sorted cs \<Longrightarrow> avl_find_child cs ch = Some c \<Longrightarrow> (ch, c) \<in> set (entries cs)"
  by (simp add: avl_find_child_map_of map_of_SomeD)

lemma find_None_keys:
  "keys_sorted cs \<Longrightarrow> avl_find_child cs ch = None \<Longrightarrow> ch \<notin> fst ` set (entries cs)"
  by (simp add: avl_find_child_map_of map_of_eq_None_iff)

lemma insert_or_get_ok:
  assumes "keys_sorted cs" "avl_ok cs"
  shows "\<exists>cs' c. insert_or_get cs ch = Inr (cs', c) \<and> keys_sorted cs' \<and> avl_ok cs'
           \<and> avl_find_child cs' ch = Some c
           \<and> (\<forall>ch'. ch' \<noteq> ch \<longrightarrow> avl_find_child cs' ch' = avl_find_child cs ch')
           \<and> (case avl_find_child cs ch of Some c0 \<Rightarrow> cs' = cs \<and> c = c0
                                          | None \<Rightarrow> c = trie_node_new)
           \<and> set (entries cs') \<subseteq> insert (ch, trie_node_new) (set (entries cs))"
proof (cases "avl_find_child cs ch")
  case (Some c0)
  with assms show ?thesis by (auto simp: insert_or_get_def)
next
  case None
  with assms(1) have nk: "ch \<notin> fst ` set (entries cs)" by (rule find_None_keys)
  from avl_insert_child_ok [OF assms(2,1) nk, of trie_node_new]
  obtain cs' where cs': "avl_insert_child cs ch trie_node_new = Inr cs'" "avl_ok cs'"
      "entries cs' = ins_entry ch trie_node_new (entries cs)"
    by blast
  have s': "keys_sorted cs'"
    using assms(1) nk cs'(3) by (simp add: keys_sorted_def sorted_ins_entry)
  have f: "avl_find_child cs' ch' = ((avl_find_child cs)(ch \<mapsto> trie_node_new)) ch'" for ch'
    using assms(1) nk cs'(3) s'
    by (simp add: avl_find_child_map_of map_of_ins_entry keys_sorted_def fun_eq_iff)
  from None cs' s' f show ?thesis
    by (auto simp: insert_or_get_def set_ins_entry)
qed

lemma my_strdup_meta_arg [simp]: "my_strdup own (meta_arg m) = Inr m"
  by (cases m) simp_all

lemma patrie_insert_Nil_meta_arg:
  "patrie_insert (TrieNode t p cs) [] sc q (meta_arg m) =
     Inr (TrieNode True (Some (stored_by_insert p sc q m)) cs)"
  by (simp add: stored_by_insert_def phenotype_new_def split: option.splits)

lemma patrie_insert_ok:
  "trie_inv t \<Longrightarrow>
   \<exists>t'. patrie_insert t key sc q (meta_arg m) = Inr t' \<and> trie_inv t'
        \<and> peek t' = (peek t)(key \<mapsto> stored_by_insert (peek t key) sc q m)"
proof (induction key arbitrary: t)
  case Nil
  obtain tt p cs where t: "t = TrieNode tt p cs" by (cases t)
  with Nil have iff: "tt \<longleftrightarrow> p \<noteq> None" by (simp add: trie_inv_simp)
  have "peek (TrieNode True (Some (stored_by_insert p sc q m)) cs) k =
          ((peek (TrieNode tt p cs))([] \<mapsto> stored_by_insert (if tt then p else None) sc q m)) k" for k
    using iff by (cases k) auto
  with Nil t show ?case
    by (auto simp: trie_inv_simp patrie_insert_Nil_meta_arg fun_eq_iff
          simp del: patrie_insert.simps)
next
  case (Cons ch key)
  obtain tt p cs where t: "t = TrieNode tt p cs" by (cases t)
  with Cons.prems have inv: "keys_sorted cs" "avl_ok cs" "tt \<longleftrightarrow> p \<noteq> None"
    and kids: "\<forall>(k, c) \<in> set (entries cs). trie_inv c"
    by (simp_all add: trie_inv_simp)
  from insert_or_get_ok [OF inv(1,2), of ch] obtain cs' c where
    g: "insert_or_get cs ch = Inr (cs', c)" "keys_sorted cs'" "avl_ok cs'"
      "avl_find_child cs' ch = Some c"
      "\<forall>ch'. ch' \<noteq> ch \<longrightarrow> avl_find_child cs' ch' = avl_find_child cs ch'"
      "case avl_find_child cs ch of Some c0 \<Rightarrow> cs' = cs \<and> c = c0 | None \<Rightarrow> c = trie_node_new"
      "set (entries cs') \<subseteq> insert (ch, trie_node_new) (set (entries cs))"
    by blast
  have kids': "\<forall>(k, c) \<in> set (entries cs'). trie_inv c"
    using kids g(7) trie_inv_new by auto
  have "(ch, c) \<in> set (entries cs')" using g(2,4) by (rule find_in_entries)
  with kids' have "trie_inv c" by auto
  from Cons.IH [OF this] obtain c' where
    c': "patrie_insert c key sc q (meta_arg m) = Inr c'" "trie_inv c'"
      "peek c' = (peek c)(key \<mapsto> stored_by_insert (peek c key) sc q m)"
    by blast
  let ?t' = "TrieNode tt p (avl_store_child cs' ch c')"
  have r: "patrie_insert t (ch # key) sc q (meta_arg m) = Inr ?t'"
    using t g(1) c'(1) by simp
  have i: "trie_inv ?t'"
    using inv(3) g(2,3) kids' c'(2) set_entries_store [of cs' ch c']
    by (auto simp: trie_inv_simp)
  have pc: "peek t (ch # k) = peek c k" for k
  proof (cases "avl_find_child cs ch")
    case None
    with g(6) t show ?thesis by (simp add: peek_new)
  next
    case (Some c0)
    with g(6) t show ?thesis by simp
  qed
  have "peek ?t' k = ((peek t)(ch # key \<mapsto> stored_by_insert (peek t (ch # key)) sc q m)) k" for k
  proof (cases k)
    case Nil
    with t show ?thesis by simp
  next
    case (Cons ch' k')
    show ?thesis
    proof (cases "ch' = ch")
      case True
      with Cons g(4) c'(3) pc show ?thesis
        by (simp add: avl_find_child_store)
    next
      case False
      with Cons g(5) t show ?thesis
        by (simp add: avl_find_child_store)
    qed
  qed
  with r i show ?case by (auto simp: fun_eq_iff)
qed

lemma patrie_lookup_ok:
  "trie_inv t \<Longrightarrow>
   \<exists>t'. patrie_lookup t key = Inr (map_option bump (peek t key), t') \<and> trie_inv t'
        \<and> peek t' = (case peek t key of None \<Rightarrow> peek t
                                       | Some ph \<Rightarrow> (peek t)(key \<mapsto> bump ph))
        \<and> (peek t key = None \<longrightarrow> t' = t)"
proof (induction key arbitrary: t)
  case Nil
  obtain tt p cs where t: "t = TrieNode tt p cs" by (cases t)
  with Nil have iff: "tt \<longleftrightarrow> p \<noteq> None" by (simp add: trie_inv_simp)
  show ?case
  proof (cases p)
    case None
    with t iff have "patrie_lookup t [] = Inr (map_option bump (peek t []), t)"
      "peek t [] = None"
      by simp_all
    with Nil show ?thesis by (intro exI [of _ t]) simp
  next
    case (Some ph)
    let ?t' = "TrieNode True (Some (bump ph)) cs"
    have "peek ?t' k = ((peek t)([] \<mapsto> bump ph)) k" for k
      using t Some iff by (cases k) auto
    then have e: "peek ?t' = (peek t)([] \<mapsto> bump ph)" by (rule ext)
    have r: "patrie_lookup t [] = Inr (map_option bump (peek t []), ?t')" "peek t [] = Some ph"
      using t Some iff by (simp_all add: bump_def)
    have i: "trie_inv ?t'"
      using Nil t by (simp add: trie_inv_simp)
    from r e i show ?thesis by (intro exI [of _ ?t']) simp
  qed
next
  case (Cons ch key)
  obtain tt p cs where t: "t = TrieNode tt p cs" by (cases t)
  with Cons.prems have inv: "keys_sorted cs" "avl_ok cs" "tt \<longleftrightarrow> p \<noteq> None"
    and kids: "\<forall>(k, c) \<in> set (entries cs). trie_inv c"
    by (simp_all add: trie_inv_simp)
  show ?case
  proof (cases "avl_find_child cs ch")
    case None
    with t have "patrie_lookup t (ch # key) = Inr (map_option bump (peek t (ch # key)), t)"
      "peek t (ch # key) = None"
      by simp_all
    with Cons.prems show ?thesis by (intro exI [of _ t]) simp
  next
    case (Some c)
    with inv(1) have "(ch, c) \<in> set (entries cs)" by (simp add: find_in_entries)
    with kids have "trie_inv c" by auto
    from Cons.IH [OF this] obtain c' where
      c': "patrie_lookup c key = Inr (map_option bump (peek c key), c')" "trie_inv c'"
        "peek c' = (case peek c key of None \<Rightarrow> peek c | Some ph \<Rightarrow> (peek c)(key \<mapsto> bump ph))"
        "peek c key = None \<longrightarrow> c' = c"
      by (elim exE conjE) (rule that)
    let ?t' = "TrieNode tt p (avl_store_child cs ch c')"
    have r: "patrie_lookup t (ch # key) = Inr (map_option bump (peek t (ch # key)), ?t')"
      using t Some c'(1) by simp
    have i: "trie_inv ?t'"
      using inv kids c'(2) set_entries_store [of cs ch c']
      by (auto simp: trie_inv_simp)
    have "peek ?t' k = (case peek t (ch # key) of None \<Rightarrow> peek t
                          | Some ph \<Rightarrow> (peek t)(ch # key \<mapsto> bump ph)) k" for k
    proof (cases k)
      case Nil
      with t show ?thesis by (simp split: option.splits)
    next
      case (Cons ch' k')
      with t Some c'(3) show ?thesis
        by (auto simp: avl_find_child_store split: option.splits)
    qed
    then have e: "peek ?t' = (case peek t (ch # key) of None \<Rightarrow> peek t
                          | Some ph \<Rightarrow> (peek t)(ch # key \<mapsto> bump ph))"
      by (rule ext)
    have "peek t (ch # key) = None \<longrightarrow> ?t' = t"
      using t Some c'(4) by (simp add: avl_store_child_same)
    with r i e show ?thesis by (intro exI [of _ ?t']) simp
  qed
qed

section \<open>What the enumeration emits\<close>

lemma avl_inorder_fold:
  "avl_inorder t f s = fold (\<lambda>(k, c). f k c) (entries t) s"
  by (induction t arbitrary: s) auto

lemma fold_emit:
  assumes "\<And>k c (s :: ('k, 'd) EnumCtx). (k, c) \<in> set xs \<Longrightarrow>
             f k c s = s\<lparr>cb_calls := cb_calls s @ map (\<lambda>(ks, po). (buf s @ k # ks, po)) (g c)\<rparr>"
  shows "fold (\<lambda>(k, c). f k c) xs s =
           s\<lparr>cb_calls := cb_calls s @
               concat (map (\<lambda>(k, c). map (\<lambda>(ks, po). (buf s @ k # ks, po)) (g c)) xs)\<rparr>"
  using assms
proof (induction xs arbitrary: s)
  case Nil
  then show ?case by simp
next
  case (Cons x xs)
  obtain k c where x: "x = (k, c)" by (cases x)
  have "f k c s = s\<lparr>cb_calls := cb_calls s @ map (\<lambda>(ks, po). (buf s @ k # ks, po)) (g c)\<rparr>"
    using Cons.prems x by simp
  moreover have "fold (\<lambda>(k, c). f k c) xs s' =
           s'\<lparr>cb_calls := cb_calls s' @
               concat (map (\<lambda>(k, c). map (\<lambda>(ks, po). (buf s' @ k # ks, po)) (g c)) xs)\<rparr>" for s'
    using Cons.IH Cons.prems by simp
  ultimately show ?case using x by simp
qed

lemma trie_dfs_tokens:
  "trie_dfs (n :: ('k, 'd) TrieNode) ec = ec\<lparr>cb_calls := cb_calls ec @ map (\<lambda>(ks, po). (buf ec @ ks, po)) (tokens n)\<rparr>"
  and "visit_tmp_fn (key :: 'k) (child :: ('k, 'd) TrieNode) e =
         e\<lparr>cb_calls := cb_calls e @ map (\<lambda>(ks, po). (buf e @ key # ks, po)) (tokens child)\<rparr>"
proof (induction n ec and key child e rule: trie_dfs_visit_tmp_fn.induct)
  case (1 t p cs ec)
  let ?s = "if t then ec\<lparr>cb_calls := cb_calls ec @ [(buf ec, p)]\<rparr> else ec"
  have "fold (\<lambda>(k, c). visit_tmp_fn k c) (entries cs) ?s =
          ?s\<lparr>cb_calls := cb_calls ?s @
               concat (map (\<lambda>(k, c). map (\<lambda>(ks, po). (buf ?s @ k # ks, po)) (tokens c)) (entries cs))\<rparr>"
    by (rule fold_emit) (use 1 in blast)
  then show ?case
    by (simp add: avl_inorder_fold map_concat comp_def case_prod_unfold)
next
  case (2 key child e)
  then show ?case by (simp add: comp_def case_prod_unfold)
qed

lemma patrie_enumerate_tokens: "patrie_enumerate t = tokens t"
  by (simp add: patrie_enumerate_def trie_dfs_tokens)

lemma cons_token_mem:
  "(ch # key, po) \<in> (\<lambda>(ks, po). (k # ks, po)) ` S \<longleftrightarrow> ch = k \<and> (key, po) \<in> S"
  by force

lemma child_tokens_mem:
  "(ch # key, po) \<in> set (concat (map (\<lambda>(k, c). map (\<lambda>(ks, po). (k # ks, po)) (g c)) xs))
     \<longleftrightarrow> (\<exists>c. (ch, c) \<in> set xs \<and> (key, po) \<in> set (g c))"
  by (induction xs) (auto simp: cons_token_mem)

lemma tokens_cons_mem:
  "(ch # key, po) \<in> set (tokens (TrieNode tt p cs))
     \<longleftrightarrow> (\<exists>c. (ch, c) \<in> set (entries cs) \<and> (key, po) \<in> set (tokens c))"
  using child_tokens_mem [of ch key po tokens "entries cs"] by simp

lemma tokens_nil_mem:
  "([], po) \<in> set (tokens (TrieNode tt p cs)) \<longleftrightarrow> tt \<and> po = p"
proof -
  have "([], po) \<notin> set (concat (map (\<lambda>(k, c). map (\<lambda>(ks, po). (k # ks, po)) (tokens c)) xs))" for xs
    by (induction xs) (auto simp: image_iff)
  then show ?thesis by auto
qed

lemma tokens_mem:
  "trie_inv t \<Longrightarrow> (key, po) \<in> set (tokens t) \<longleftrightarrow> po \<noteq> None \<and> peek t key = po"
proof (induction key arbitrary: t)
  case Nil
  obtain tt p cs where t: "t = TrieNode tt p cs" by (cases t)
  with Nil have "tt \<longleftrightarrow> p \<noteq> None" by (simp add: trie_inv_simp)
  with t show ?case by (auto simp: tokens_nil_mem simp del: tokens.simps)
next
  case (Cons ch key)
  obtain tt p cs where t: "t = TrieNode tt p cs" by (cases t)
  with Cons.prems have inv: "keys_sorted cs"
    and kids: "\<forall>(k, c) \<in> set (entries cs). trie_inv c"
    by (simp_all add: trie_inv_simp)
  have d: "distinct (map fst (entries cs))"
    using inv by (simp add: keys_sorted_def strict_sorted_iff)
  have f: "(ch, c) \<in> set (entries cs) \<longleftrightarrow> avl_find_child cs ch = Some c" for c
    using inv d by (simp add: avl_find_child_map_of)
  show ?case
  proof (cases "avl_find_child cs ch")
    case None
    with f t show ?thesis by (auto simp: tokens_cons_mem simp del: tokens.simps)
  next
    case (Some c)
    with f kids have "trie_inv c" by auto
    from Cons.IH [OF this] Some f t show ?thesis
      by (simp add: tokens_cons_mem del: tokens.simps)
  qed
qed

lemma sorted_cons_keys:
  fixes ks :: "'k::linorder list list"
  shows "sorted_wrt (<) ks \<Longrightarrow> sorted_wrt (<) (map ((#) k) ks)"
  by (simp add: sorted_wrt_map)

lemma sorted_child_keys:
  fixes xs :: "('k::linorder \<times> 'c) list"
  assumes "sorted_wrt (<) (map fst xs)"
    and "\<forall>x \<in> set xs. sorted_wrt (<) (h (snd x))"
  shows "sorted_wrt (<) (concat (map (\<lambda>x. map ((#) (fst x)) (h (snd x))) xs))"
  using assms
proof (induction xs)
  case Nil
  then show ?case by simp
next
  case (Cons x xs)
  have 1: "sorted_wrt (<) (map ((#) (fst x)) (h (snd x)))"
    using Cons.prems(2) by (simp add: sorted_cons_keys)
  have 2: "sorted_wrt (<) (concat (map (\<lambda>x. map ((#) (fst x)) (h (snd x))) xs))"
    using Cons by simp
  have 3: "a < b" if a: "a \<in> set (map ((#) (fst x)) (h (snd x)))"
    and b: "b \<in> set (concat (map (\<lambda>x. map ((#) (fst x)) (h (snd x))) xs))" for a b
  proof -
    from a obtain ks where a': "a = fst x # ks" by (auto simp: image_iff)
    from b obtain y ks' where b': "y \<in> set xs" "b = fst y # ks'" by (auto simp: image_iff)
    from Cons.prems(1) b'(1) have "fst x < fst y" by simp
    with a' b' show ?thesis by simp
  qed
  show ?case
    unfolding list.map concat.simps sorted_wrt_append
    using 1 2 3 by blast
qed

lemma map_fst_tokens_step:
  "map fst (concat (map (\<lambda>(k, c). map (\<lambda>(ks, po). (k # ks, po)) (g c)) xs)) =
   concat (map (\<lambda>x. map ((#) (fst x)) (map fst (g (snd x)))) xs)"
  by (induction xs) (auto simp: case_prod_unfold)

lemma tokens_sorted:
  fixes t :: "('k::linorder, 'd) TrieNode"
  shows "trie_inv t \<Longrightarrow> sorted_wrt (<) (map fst (tokens t))"
proof (induction t rule: tokens.induct)
  case (1 t p cs)
  then have s: "sorted_wrt (<) (map fst (entries cs))"
    and kids: "\<forall>(k, c) \<in> set (entries cs). trie_inv c"
    by (simp_all add: trie_inv_simp keys_sorted_def)
  have "\<forall>x \<in> set (entries cs). sorted_wrt (<) (map fst (tokens (snd x)))"
    using "1.IH" kids by (metis case_prodD prod.collapse)
  with s have c: "sorted_wrt (<)
         (concat (map (\<lambda>x. map ((#) (fst x)) (map fst (tokens (snd x)))) (entries cs)))"
    by (rule sorted_child_keys)
  have n: "[] < b"
    if "b \<in> set (concat (map (\<lambda>x. map ((#) (fst x)) (map fst (tokens (snd x)))) (entries cs)))"
    for b
    using that by (auto simp: image_iff)
  have "map fst (tokens (TrieNode t p cs)) =
          (if t then [[]] else []) @
          concat (map (\<lambda>x. map ((#) (fst x)) (map fst (tokens (snd x)))) (entries cs))"
    by (simp add: map_fst_tokens_step del: map_concat)
  with c n show ?case
    by (simp add: sorted_wrt_append del: tokens.simps)
qed

section \<open>Reachable tries\<close>

lemma avl_ok_depth: "avl_ok t \<Longrightarrow> height_avl t = depth t \<and> avl_balanced t"
  by (induction t) auto

lemma avl_inorder_keys: "avl_inorder t (\<lambda>k c ks. ks @ [k]) ks0 = ks0 @ map fst (entries t)"
  by (induction t arbitrary: ks0) auto

lemma apply_op_ok:
  assumes "trie_inv t"
  shows "\<exists>t'. apply_op t x = Inr t' \<and> trie_inv t'
           \<and> dom (peek t') = dom (peek t) \<union> inserted_keys [x]"
proof (cases x)
  case (Insert key sc q m)
  from patrie_insert_ok [OF assms, of key sc q m] Insert show ?thesis by auto
next
  case (Lookup key)
  from patrie_lookup_ok [OF assms, of key] obtain t' where
    t': "patrie_lookup t key = Inr (map_option bump (peek t key), t')" "trie_inv t'"
      "peek t' = (case peek t key of None \<Rightarrow> peek t | Some ph \<Rightarrow> (peek t)(key \<mapsto> bump ph))"
      "peek t key = None \<longrightarrow> t' = t"
    by (elim exE conjE) (rule that)
  from t'(3) have "dom (peek t') = dom (peek t)"
    by (auto split: option.splits if_splits)
  with t' Lookup show ?thesis by simp
next
  case Enumerate
  with assms show ?thesis by simp
qed

lemma inserted_keys_Cons: "inserted_keys (x # xs) = inserted_keys [x] \<union> inserted_keys xs"
  by (cases x) auto

lemma run_ops_ok:
  "trie_inv t \<Longrightarrow>
   \<exists>t'. run_ops t ops = Inr t' \<and> trie_inv t'
        \<and> dom (peek t') = dom (peek t) \<union> inserted_keys ops"
proof (induction ops arbitrary: t)
  case Nil
  then show ?case by simp
next
  case (Cons x xs)
  from apply_op_ok [OF Cons.prems, of x] obtain t1 where
    t1: "apply_op t x = Inr t1" "trie_inv t1"
      "dom (peek t1) = dom (peek t) \<union> inserted_keys [x]"
    by blast
  from Cons.IH [OF t1(2)] obtain t' where
    t': "run_ops t1 xs = Inr t'" "trie_inv t'"
      "dom (peek t') = dom (peek t1) \<union> inserted_keys xs"
    by blast
  from t1 t' inserted_keys_Cons [of x xs] show ?case by auto
qed

lemma run_ops_new:
  "\<exists>t. run_ops trie_node_new ops = Inr t \<and> trie_inv t \<and> dom (peek t) = inserted_keys ops"
  using run_ops_ok [OF trie_inv_new, of ops] by (auto simp: peek_new dom_def)

lemma tokens_terminal:
  "\<exists>rest. tokens (TrieNode True p cs) = ([], p) # rest \<and> [] \<notin> fst ` set rest"
proof -
  have "[] \<notin> fst ` set (concat (map (\<lambda>(k, c). map (\<lambda>(ks, po). (k # ks, po)) (tokens c)) xs))"
    for xs :: "('a \<times> ('a, 'b) TrieNode) list"
    by (induction xs) (auto simp: image_iff)
  then show ?thesis by simp
qed

lemma reachable_inv:
  "run_ops trie_node_new ops = Inr t \<Longrightarrow> trie_inv t \<and> dom (peek t) = inserted_keys ops"
  using run_ops_new [of ops] by auto

section \<open>The visits counter\<close>

lemma apply_op_visits:
  assumes "trie_inv t" "peek t key = Some ph"
  shows "\<exists>t'. apply_op t x = Inr t'
           \<and> map_option visits (peek t' key) =
               Some (if x = Lookup key then visits ph + 1 else visits ph)"
proof (cases x)
  case (Insert k sc q m)
  from patrie_insert_ok [OF assms(1), of k sc q m] obtain t' where
    t': "patrie_insert t k sc q (meta_arg m) = Inr t'"
      "peek t' = (peek t)(k \<mapsto> stored_by_insert (peek t k) sc q m)"
    by (elim exE conjE) (rule that)
  have "map_option visits (peek t' key) = Some (visits ph)"
    using t'(2) assms(2) by (auto simp: stored_by_insert_def)
  with t'(1) Insert show ?thesis by simp
next
  case (Lookup k)
  from patrie_lookup_ok [OF assms(1), of k] obtain t' where
    t': "patrie_lookup t k = Inr (map_option bump (peek t k), t')"
      "peek t' = (case peek t k of None \<Rightarrow> peek t | Some ph \<Rightarrow> (peek t)(k \<mapsto> bump ph))"
    by (elim exE conjE) (rule that)
  have "map_option visits (peek t' key) = Some (if k = key then visits ph + 1 else visits ph)"
    using t'(2) assms(2) by (auto simp: bump_def split: option.splits)
  with t'(1) Lookup show ?thesis by auto
next
  case Enumerate
  with assms show ?thesis by simp
qed

lemma apply_op_absent:
  assumes "trie_inv t" "peek t key = None"
  shows "\<exists>t'. apply_op t x = Inr t' \<and> trie_inv t'
           \<and> map_option visits (peek t' key) =
               (if \<exists>sc q m. x = Insert key sc q m then Some 0 else None)"
proof (cases x)
  case (Insert k sc q m)
  from patrie_insert_ok [OF assms(1), of k sc q m] obtain t' where
    t': "patrie_insert t k sc q (meta_arg m) = Inr t'" "trie_inv t'"
      "peek t' = (peek t)(k \<mapsto> stored_by_insert (peek t k) sc q m)"
    by (elim exE conjE) (rule that)
  have "map_option visits (peek t' key) = (if k = key then Some 0 else None)"
    using t'(3) assms(2) by (auto simp: stored_by_insert_def phenotype_new_def)
  with t'(1,2) Insert show ?thesis by simp
next
  case (Lookup k)
  from patrie_lookup_ok [OF assms(1), of k] obtain t' where
    t': "patrie_lookup t k = Inr (map_option bump (peek t k), t')" "trie_inv t'"
      "peek t' = (case peek t k of None \<Rightarrow> peek t | Some ph \<Rightarrow> (peek t)(k \<mapsto> bump ph))"
    by (elim exE conjE) (rule that)
  have "map_option visits (peek t' key) = None"
    using t'(3) assms(2) by (auto split: option.splits)
  with t'(1,2) Lookup show ?thesis by auto
next
  case Enumerate
  with assms show ?thesis by simp
qed

lemma run_ops_visits:
  assumes "trie_inv t" "run_ops t ops = Inr t'"
    and "map_option visits (peek t key) = map_option word_of_nat acc"
  shows "map_option visits (peek t' key) = map_option word_of_nat (successful_lookups key acc ops)"
  using assms
proof (induction ops arbitrary: t acc)
  case Nil
  then show ?case by simp
next
  case (Cons x xs)
  from apply_op_ok [OF Cons.prems(1), of x] obtain t1 where
    t1: "apply_op t x = Inr t1" "trie_inv t1"
    by (elim exE conjE) (rule that)
  with Cons.prems(2) have r: "run_ops t1 xs = Inr t'" by simp
  show ?case
  proof (cases "peek t key")
    case None
    with Cons.prems(3) have acc: "acc = None" by simp
    from apply_op_absent [OF Cons.prems(1) None, of x] t1(1)
    have v: "map_option visits (peek t1 key) =
               (if \<exists>sc q m. x = Insert key sc q m then Some 0 else None)"
      by simp
    show ?thesis
    proof (cases x)
      case (Insert k sc q m)
      from v Insert have "map_option visits (peek t1 key) =
          map_option word_of_nat (if k = key \<and> acc = None then Some 0 else acc)"
        using acc by simp
      from Cons.IH [OF t1(2) r this] Insert show ?thesis by simp
    next
      case (Lookup k)
      from v Lookup have "map_option visits (peek t1 key) =
          map_option word_of_nat (if k = key then map_option Suc acc else acc)"
        using acc by simp
      from Cons.IH [OF t1(2) r this] Lookup show ?thesis by simp
    next
      case Enumerate
      from v Enumerate have "map_option visits (peek t1 key) = map_option word_of_nat acc"
        using acc by simp
      from Cons.IH [OF t1(2) r this] Enumerate show ?thesis by simp
    qed
  next
    case (Some ph)
    with Cons.prems(3) obtain n where acc: "acc = Some n" "visits ph = word_of_nat n"
      by (cases acc) auto
    from apply_op_visits [OF Cons.prems(1) Some, of x] t1(1)
    have v: "map_option visits (peek t1 key) =
               Some (if x = Lookup key then visits ph + 1 else visits ph)"
      by simp
    show ?thesis
    proof (cases x)
      case (Insert k sc q m)
      from v Insert have "map_option visits (peek t1 key) =
          map_option word_of_nat (if k = key \<and> acc = None then Some 0 else acc)"
        using acc by simp
      from Cons.IH [OF t1(2) r this] Insert show ?thesis by simp
    next
      case (Lookup k)
      from v Lookup have "map_option visits (peek t1 key) =
          map_option word_of_nat (if k = key then map_option Suc acc else acc)"
        using acc by (auto simp: ac_simps)
      from Cons.IH [OF t1(2) r this] Lookup show ?thesis by simp
    next
      case Enumerate
      from v Enumerate have "map_option visits (peek t1 key) = map_option word_of_nat acc"
        using acc by simp
      from Cons.IH [OF t1(2) r this] Enumerate show ?thesis by simp
    qed
  qed
qed

lemma successful_lookups_replicate:
  "successful_lookups key (Some a) (replicate n (Lookup key)) = Some (a + n)"
  by (induction n arbitrary: a) auto

lemma w64: "word_of_nat (2 ^ 64) = (0 :: 64 word)"
  by simp

lemma u64: "unat (word_of_nat n :: 64 word) = n mod 2 ^ 64"
  by (simp add: unat_of_nat)

lemma insert_then_lookups:
  fixes t :: "('k::linorder, 'd) TrieNode"
  assumes "trie_inv t" "peek t key = None"
  shows "\<exists>tn. run_ops t (Insert key sc q m # replicate n (Lookup key)) = Inr tn
           \<and> map_option visits (peek tn key) = Some (word_of_nat n)"
proof -
  let ?ops = "Insert key sc q m # replicate n (Lookup key)"
  from run_ops_ok [OF assms(1), of ?ops] obtain tn where
    tn: "run_ops t ?ops = Inr tn"
    by (elim exE conjE) (rule that)
  from assms(2) have "map_option visits (peek t key) = map_option word_of_nat None" by simp
  from run_ops_visits [OF assms(1) tn this]
  have "map_option visits (peek tn key) = Some (word_of_nat n)"
    by (simp add: successful_lookups_replicate)
  with tn show ?thesis by (intro exI [of _ tn] conjI)
qed

lemma insert_or_get_inv:
  assumes "trie_inv (TrieNode tt p cs)"
  shows "\<exists>cs' c. insert_or_get cs ch = Inr (cs', c) \<and> trie_inv c"
proof -
  from assms have inv: "keys_sorted cs" "avl_ok cs"
    and kids: "\<forall>(k, c) \<in> set (entries cs). trie_inv c"
    by (simp_all add: trie_inv_simp)
  from insert_or_get_ok [OF inv, of ch] obtain cs' c where
    g: "insert_or_get cs ch = Inr (cs', c)" "keys_sorted cs'" "avl_find_child cs' ch = Some c"
      "set (entries cs') \<subseteq> insert (ch, trie_node_new) (set (entries cs))"
    by (elim exE conjE) (rule that)
  have "(ch, c) \<in> set (entries cs')" using g(2,3) by (rule find_in_entries)
  with g(4) kids trie_inv_new have "trie_inv c" by auto
  with g(1) show ?thesis by (intro exI [of _ cs'] exI [of _ c] conjI)
qed

text \<open>
  An insert whose \<^verbatim>\<open>meta\<close> points into the text of the key's own payload: in the update
  branch the text is freed before it is read, and in the creating branch there is no
  such text.
\<close>

lemma patrie_insert_own_meta:
  "trie_inv t \<Longrightarrow> patrie_insert t key sc q (IntoOwnMeta n) = Inl InvalidRead"
proof (induction key arbitrary: t)
  case Nil
  obtain tt p cs where t: "t = TrieNode tt p cs" by (cases t)
  then show ?case by (cases p) (simp_all add: phenotype_new_def)
next
  case (Cons ch key)
  obtain tt p cs where t: "t = TrieNode tt p cs" by (cases t)
  from insert_or_get_inv [of tt p cs ch] Cons.prems t obtain cs' c where
    g: "insert_or_get cs ch = Inr (cs', c)" "trie_inv c"
    by auto
  from Cons.IH [OF g(2)] g(1) t show ?case by simp
qed

lemma avl_inorder_entries:
  "avl_inorder t (\<lambda>k c xs. xs @ [(k, c)]) xs0 = xs0 @ entries t"
  by (induction t arbitrary: xs0) auto

section \<open>The claims\<close>




text \<open>
  Claim C2 (enumeration completeness and order). After any finite sequence of
  operations on a new trie, in whatever order the inserts were made,
  \<^verbatim>\<open>patrie_enumerate\<close> calls the visitor on exactly the set of inserted keys, once per
  distinct key, and the calls come in strictly ascending lexicographic order of the keys
  (a key before its extensions, siblings in ascending symbol order). The run itself
  never faults.
\<close>

theorem enumerate_complete_sorted:
  fixes ops :: "('k::linorder, 'd) op list"
  shows "\<exists>t. run_ops trie_node_new ops = Inr t
           \<and> set (map fst (patrie_enumerate t)) = inserted_keys ops
           \<and> sorted_wrt (<) (map fst (patrie_enumerate t))
           \<and> distinct (map fst (patrie_enumerate t))"
proof -
  from run_ops_new [of ops] obtain t where
    t: "run_ops trie_node_new ops = Inr t" "trie_inv t" "dom (peek t) = inserted_keys ops"
    by (elim exE conjE) (rule that)
  have "key \<in> fst ` set (tokens t) \<longleftrightarrow> key \<in> dom (peek t)" for key
  proof
    assume "key \<in> fst ` set (tokens t)"
    then obtain po where "(key, po) \<in> set (tokens t)" by auto
    with tokens_mem [OF t(2)] show "key \<in> dom (peek t)" by auto
  next
    assume "key \<in> dom (peek t)"
    then obtain ph where "peek t key = Some ph" by auto
    with tokens_mem [OF t(2), of key "Some ph"] have "(key, Some ph) \<in> set (tokens t)" by simp
    then show "key \<in> fst ` set (tokens t)" by force
  qed
  with t(3) have s: "set (map fst (patrie_enumerate t)) = inserted_keys ops"
    by (auto simp: patrie_enumerate_tokens)
  have o: "sorted_wrt (<) (map fst (patrie_enumerate t))"
    using tokens_sorted [OF t(2)] by (simp add: patrie_enumerate_tokens)
  then have "distinct (map fst (patrie_enumerate t))"
    by (simp add: strict_sorted_iff)
  with t(1) s o show ?thesis by blast
qed

text \<open>
  The theorem at the three keys of the example program, inserted in another order, with
  a lookup and a second insert of one key in between.
\<close>

theorem enumerate_complete_sorted_witness:
  "\<exists>t :: (char, real) TrieNode.
     run_ops trie_node_new
       [Insert ''phoneme'' 0.45 4 (Some ''sound unit''),
        Insert ''phenovalude'' 0.85 8 (Some ''value metric''),
        Lookup ''phoneme'',
        Insert ''phenotype'' 0.72 3 (Some ''root concept''),
        Insert ''phoneme'' 0.5 4 None] = Inr t
     \<and> map fst (patrie_enumerate t) = [''phenotype'', ''phenovalude'', ''phoneme'']"
proof -
  let ?ops = "[Insert ''phoneme'' 0.45 4 (Some ''sound unit''),
        Insert ''phenovalude'' 0.85 8 (Some ''value metric''),
        Lookup ''phoneme'',
        Insert ''phenotype'' 0.72 3 (Some ''root concept''),
        Insert ''phoneme'' 0.5 4 None] :: (char, real) op list"
  from enumerate_complete_sorted [of ?ops] obtain t where
    t: "run_ops trie_node_new ?ops = Inr t"
      "set (map fst (patrie_enumerate t)) = inserted_keys ?ops"
      "sorted_wrt (<) (map fst (patrie_enumerate t))"
    by (elim exE conjE) (rule that)
  have "inserted_keys ?ops = {''phoneme'', ''phenovalude'', ''phenotype'', ''phoneme''}"
    by simp
  also have "\<dots> = {''phenotype'', ''phenovalude'', ''phoneme''}"
    by blast
  finally have k: "set [''phenotype'', ''phenovalude'', ''phoneme''] = set (map fst (patrie_enumerate t))"
    unfolding t(2) [symmetric] by simp
  have o: "sorted_wrt (<) [''phenotype'', ''phenovalude'', ''phoneme'']"
    by simp
  have "[''phenotype'', ''phenovalude'', ''phoneme''] = map fst (patrie_enumerate t)"
    using t(3) o k by (rule strict_sorted_equal)
  then have "map fst (patrie_enumerate t) = [''phenotype'', ''phenovalude'', ''phoneme'']"
    by (rule sym)
  with t(1) show ?thesis by (intro exI [of _ t] conjI)
qed

text \<open>
  Claim C3 (AVL balance invariant). After any finite sequence of operations on a new
  trie, at every trie node every subtree of the child set has left and right heights
  that differ by at most one, every cached height is the true height, and the in-order
  traversal \<^verbatim>\<open>avl_inorder\<close> calls its visitor on exactly the entries of the child set, one
  call per entry, in strictly ascending order of their keys.
\<close>

theorem child_sets_balanced:
  fixes ops :: "('k::linorder, 'd) op list"
  shows "\<exists>t. run_ops trie_node_new ops = Inr t
           \<and> every_node (\<lambda>n. avl_balanced (children n)
                  \<and> avl_inorder (children n) (\<lambda>k c xs. xs @ [(k, c)]) [] = entries (children n)
                  \<and> sorted_wrt (<) (map fst (entries (children n)))
                  \<and> sorted_wrt (<) (avl_inorder (children n) (\<lambda>k c ks. ks @ [k]) [])) t"
proof -
  from run_ops_new [of ops] obtain t where
    t: "run_ops trie_node_new ops = Inr t" "trie_inv t"
    by (elim exE conjE) (rule that)
  from t(2) have "every_node node_ok t" by (simp add: trie_inv_def)
  then have "every_node (\<lambda>n. avl_balanced (children n)
                  \<and> avl_inorder (children n) (\<lambda>k c xs. xs @ [(k, c)]) [] = entries (children n)
                  \<and> sorted_wrt (<) (map fst (entries (children n)))
                  \<and> sorted_wrt (<) (avl_inorder (children n) (\<lambda>k c ks. ks @ [k]) [])) t"
    by (rule every_node_mono)
       (simp add: node_ok_def avl_ok_depth avl_inorder_keys avl_inorder_entries keys_sorted_def)
  with t(1) show ?thesis by (intro exI [of _ t] conjI)
qed

text \<open>
  The theorem at five one-symbol keys whose insertion takes a single left rotation
  (\<open>a\<close>, \<open>b\<close>, \<open>c\<close>) and a right-left double rotation (\<open>c\<close>, \<open>e\<close>, \<open>d\<close>).
\<close>

theorem child_sets_balanced_witness:
  "run_ops (trie_node_new :: (char, real) TrieNode)
     [Insert ''a'' 1 0 None, Insert ''b'' 2 0 None, Insert ''c'' 3 0 None,
      Insert ''e'' 4 0 None, Insert ''d'' 5 0 None]
   = Inr (TrieNode False None
       (AVLChild CHR ''b''
         (TrieNode True (Some \<lparr>score = 2, visits = 0, qual = 0, meta = None\<rparr>) Null) 3
         (AVLChild CHR ''a''
           (TrieNode True (Some \<lparr>score = 1, visits = 0, qual = 0, meta = None\<rparr>) Null) 1
           Null Null)
         (AVLChild CHR ''d''
           (TrieNode True (Some \<lparr>score = 5, visits = 0, qual = 0, meta = None\<rparr>) Null) 2
           (AVLChild CHR ''c''
             (TrieNode True (Some \<lparr>score = 3, visits = 0, qual = 0, meta = None\<rparr>) Null) 1
             Null Null)
           (AVLChild CHR ''e''
             (TrieNode True (Some \<lparr>score = 4, visits = 0, qual = 0, meta = None\<rparr>) Null) 1
             Null Null))))
   \<and> every_node (\<lambda>n. avl_balanced (children n)
          \<and> avl_inorder (children n) (\<lambda>k c xs. xs @ [(k, c)]) [] = entries (children n)
          \<and> sorted_wrt (<) (map fst (entries (children n)))
          \<and> sorted_wrt (<) (avl_inorder (children n) (\<lambda>k c ks. ks @ [k]) []))
       (TrieNode False None
       (AVLChild CHR ''b''
         (TrieNode True (Some \<lparr>score = 2 :: real, visits = 0, qual = 0, meta = None\<rparr>) Null) 3
         (AVLChild CHR ''a''
           (TrieNode True (Some \<lparr>score = 1, visits = 0, qual = 0, meta = None\<rparr>) Null) 1
           Null Null)
         (AVLChild CHR ''d''
           (TrieNode True (Some \<lparr>score = 5, visits = 0, qual = 0, meta = None\<rparr>) Null) 2
           (AVLChild CHR ''c''
             (TrieNode True (Some \<lparr>score = 3, visits = 0, qual = 0, meta = None\<rparr>) Null) 1
             Null Null)
           (AVLChild CHR ''e''
             (TrieNode True (Some \<lparr>score = 4, visits = 0, qual = 0, meta = None\<rparr>) Null) 1
             Null Null))))"
  (is "?run = Inr ?T \<and> ?inv")
proof -
  have e: "?run = Inr ?T"
    by (simp add: trie_node_new_def insert_or_get_def phenotype_new_def avl_rebalance_def
          max_int_def)
  from child_sets_balanced [of "[Insert ''a'' 1 0 None, Insert ''b'' 2 0 None,
      Insert ''c'' 3 0 None, Insert ''e'' 4 0 None, Insert ''d'' 5 0 None] :: (char, real) op list"]
  have "?inv" unfolding e by (elim exE conjE) simp
  with e show ?thesis by (rule conjI)
qed

text \<open>
  Claim C4 (monotonic visits) as stated says that \<open>N\<close> successive lookups of an
  inserted key yield \<^verbatim>\<open>visits == N\<close> for every \<open>N\<close>. \<^verbatim>\<open>visits\<close> is a \<^verbatim>\<open>uint64_t\<close>, so
  \<^verbatim>\<open>visits++\<close> wraps around: after one insert and \<open>2 ^ 64\<close> lookups of \<open>''a''\<close> the
  counter is 0.
\<close>

theorem visits_wrap_counterexample:
  "(case run_ops (trie_node_new :: (char, real) TrieNode)
           (Insert ''a'' 1 0 None # replicate (2 ^ 64) (Lookup ''a'')) of
      Inl e \<Rightarrow> None
    | Inr t \<Rightarrow> map_option (unat \<circ> visits) (peek t ''a'')) = Some 0"
proof -
  from insert_then_lookups [OF trie_inv_new peek_new, of "''a''" 1 0 None "2 ^ 64"]
  obtain tn :: "(char, real) TrieNode" where
    a: "run_ops trie_node_new (Insert ''a'' 1 0 None # replicate (2 ^ 64) (Lookup ''a'')) = Inr tn"
    and b: "map_option visits (peek tn ''a'') = Some (word_of_nat (2 ^ 64))"
    by (elim exE conjE) (rule that)
  from b have "map_option (unat \<circ> visits) (peek tn ''a'') = Some 0"
    unfolding w64 by (cases "peek tn ''a''") auto
  then show ?thesis unfolding a by simp
qed

text \<open>
  Claim C4 (monotonic visits), amended. In a trie reached by a sequence of operations,
  the \<^verbatim>\<open>visits\<close> counter of a stored key is the number of lookups of that key made
  since its first insert, modulo \<open>2 ^ 64\<close>: it starts at 0 at creation, grows by one
  (modulo \<open>2 ^ 64\<close>) with every successful lookup of the key, and no other operation
  changes it (\<open>successful_lookups\<close> counts exactly those lookups). So inserting a key
  that is not stored and looking it up \<open>N\<close> times yields \<^verbatim>\<open>visits == N mod 2 ^ 64\<close>,
  which is \<open>N\<close> for \<open>N < 2 ^ 64\<close>.
\<close>

theorem visits_count_successful_lookups:
  fixes ops :: "('k::linorder, 'd) op list"
  assumes "run_ops trie_node_new ops = Inr t"
  shows "map_option (unat \<circ> visits) (peek t key) =
           map_option (\<lambda>n. n mod 2 ^ 64) (successful_lookups key None ops)
         \<and> (peek t key = None \<longrightarrow>
              (\<forall>n. \<exists>tn. run_ops t (Insert key sc q m # replicate n (Lookup key)) = Inr tn
                     \<and> map_option (unat \<circ> visits) (peek tn key) = Some (n mod 2 ^ 64)))"
proof (intro conjI impI allI)
  have "map_option visits (peek (trie_node_new :: ('k, 'd) TrieNode) key) =
          map_option word_of_nat None"
    by (simp add: peek_new)
  from run_ops_visits [OF trie_inv_new assms this]
  show "map_option (unat \<circ> visits) (peek t key) =
           map_option (\<lambda>n. n mod 2 ^ 64) (successful_lookups key None ops)"
    by (cases "peek t key"; cases "successful_lookups key None ops") (auto simp: u64)
next
  fix n
  assume n: "peek t key = None"
  from reachable_inv [OF assms] have "trie_inv t" by simp
  from insert_then_lookups [OF this n, of sc q m n] obtain tn where
    tn: "run_ops t (Insert key sc q m # replicate n (Lookup key)) = Inr tn"
      "map_option visits (peek tn key) = Some (word_of_nat n)"
    by (elim exE conjE) (rule that)
  from tn(2) have "map_option (unat \<circ> visits) (peek tn key) = Some (n mod 2 ^ 64)"
    by (cases "peek tn key") (auto simp: u64)
  with tn(1) show "\<exists>tn. run_ops t (Insert key sc q m # replicate n (Lookup key)) = Inr tn
                     \<and> map_option (unat \<circ> visits) (peek tn key) = Some (n mod 2 ^ 64)"
    by (intro exI [of _ tn] conjI)
qed

text \<open>
  The theorem at a run in which \<open>''a''\<close> is inserted, looked up, inserted again and
  looked up again, among operations on other keys: its counter is 2.
\<close>

theorem visits_count_successful_lookups_witness:
  "run_ops (trie_node_new :: (char, real) TrieNode)
     [Insert ''a'' 0.5 1 None, Lookup ''a'', Lookup ''b'', Insert ''a'' 0.9 2 None,
      Insert ''ab'' 0.1 0 None, Lookup ''a'', Enumerate, Lookup ''ab'']
   = Inr (TrieNode False None
        (AVLChild CHR ''a''
           (TrieNode True (Some \<lparr>score = 0.9, visits = 2, qual = 2, meta = None\<rparr>)
              (AVLChild CHR ''b''
                 (TrieNode True (Some \<lparr>score = 0.1, visits = 1, qual = 0, meta = None\<rparr>) Null)
                 1 Null Null))
           1 Null Null))
   \<and> map_option (unat \<circ> visits)
       (peek (TrieNode False None
        (AVLChild CHR ''a''
           (TrieNode True (Some \<lparr>score = 0.9 :: real, visits = 2, qual = 2, meta = None\<rparr>)
              (AVLChild CHR ''b''
                 (TrieNode True (Some \<lparr>score = 0.1, visits = 1, qual = 0, meta = None\<rparr>) Null)
                 1 Null Null))
           1 Null Null)) ''a'') = Some 2"
  (is "?run = Inr ?T \<and> ?v")
proof -
  have r: "?run = Inr ?T"
    by (simp add: trie_node_new_def insert_or_get_def phenotype_new_def)
  from visits_count_successful_lookups [OF r, of "''a''", THEN conjunct1]
  have "?v" by simp
  with r show ?thesis by (rule conjI)
qed

text \<open>
  \<open>peek t key\<close> is the payload stored under \<open>key\<close>, read without the side effect of
  \<^verbatim>\<open>patrie_lookup\<close>; on a reachable trie \<^verbatim>\<open>patrie_lookup\<close> returns it with \<^verbatim>\<open>visits\<close>
  incremented (lemma \<open>patrie_lookup_ok\<close>).

  What the code does of claim C5 (replace, not merge) when \<^verbatim>\<open>meta\<close> is NULL or a text
  outside the payload: in a reachable trie that stores \<open>key\<close> with payload \<open>old\<close>,
  inserting \<open>key\<close> again succeeds; afterwards the payload is exactly the new score,
  flags and meta with the \<^verbatim>\<open>visits\<close> of \<open>old\<close>, and a lookup returns it with one more
  visit.
\<close>

lemma reinsert_replaces:
  fixes ops :: "('k::linorder, 'd) op list"
  assumes "run_ops trie_node_new ops = Inr t" and "peek t key = Some old"
  shows "\<exists>t' t''. patrie_insert t key sc q (meta_arg m) = Inr t'
           \<and> peek t' key = Some \<lparr>score = sc, visits = visits old, qual = q, meta = m\<rparr>
           \<and> patrie_lookup t' key =
               Inr (Some \<lparr>score = sc, visits = visits old + 1, qual = q, meta = m\<rparr>, t'')"
proof -
  from reachable_inv [OF assms(1)] have inv: "trie_inv t" by simp
  from patrie_insert_ok [OF inv, of key sc q m] obtain t' where
    t': "patrie_insert t key sc q (meta_arg m) = Inr t'" "trie_inv t'"
      "peek t' = (peek t)(key \<mapsto> stored_by_insert (peek t key) sc q m)"
    by (elim exE conjE) (rule that)
  have p: "peek t' key = Some \<lparr>score = sc, visits = visits old, qual = q, meta = m\<rparr>"
    using t'(3) assms(2) by (simp add: stored_by_insert_def)
  from patrie_lookup_ok [OF t'(2), of key] obtain t'' where
    "patrie_lookup t' key = Inr (map_option bump (peek t' key), t'')"
    by (elim exE conjE) (rule that)
  with p have "patrie_lookup t' key =
               Inr (Some \<lparr>score = sc, visits = visits old + 1, qual = q, meta = m\<rparr>, t'')"
    by (simp add: bump_def)
  with t'(1) p show ?thesis by (intro exI [of _ t'] exI [of _ t''] conjI)
qed

text \<open>
  Claim C5 (replace, not merge): inserting a key a second time leaves the second
  (score, flags, meta) retrievable, for every key and every (score, flags, meta). The
  code misses it when the second \<^verbatim>\<open>meta\<close> is the text the payload already holds, handed
  back by the caller: after \<open>''k''\<close> was inserted with meta \<open>''hello''\<close> and looked up,
  the pointer \<^verbatim>\<open>p->meta\<close> reads \<open>''hello''\<close>, and \<^verbatim>\<open>patrie_insert\<close> with that pointer
  frees the text (line 150) before \<^verbatim>\<open>my_strdup\<close> reads it (line 151), a use after free
  that leaves no defined meta to retrieve.
\<close>

theorem reinsert_own_meta_faults:
  "run_ops (trie_node_new :: (char, real) TrieNode)
     [Insert ''k'' 0.5 1 (Some ''hello''), Lookup ''k'']
   = Inr (TrieNode False None
        (AVLChild CHR ''k''
           (TrieNode True
              (Some \<lparr>score = 0.5, visits = 1, qual = 1, meta = Some ''hello''\<rparr>) Null)
           1 Null Null))
   \<and> my_strdup
       (Option.bind
          (peek (TrieNode False None
             (AVLChild CHR ''k''
                (TrieNode True
                   (Some \<lparr>score = 0.5 :: real, visits = 1, qual = 1, meta = Some ''hello''\<rparr>) Null)
                1 Null Null)) ''k'') meta)
       (IntoOwnMeta 0) = Inr (Some ''hello'')
   \<and> patrie_insert
       (TrieNode False None
          (AVLChild CHR ''k''
             (TrieNode True
                (Some \<lparr>score = 0.5 :: real, visits = 1, qual = 1, meta = Some ''hello''\<rparr>) Null)
             1 Null Null))
       ''k'' 0.9 2 (IntoOwnMeta 0) = Inl InvalidRead"
  by (simp add: trie_node_new_def insert_or_get_def phenotype_new_def)

text \<open>
  Claim C6 (not found). In a trie reached from a new trie by a sequence of operations,
  the lookup of a key that no insert of the sequence stored returns NULL (and, as in C10,
  changes nothing). This covers a strict prefix of an inserted key, whose last node
  exists but is not terminal, and a key one of whose symbols has no matching child.
\<close>

theorem lookup_never_inserted:
  fixes ops :: "('k::linorder, 'd) op list"
  assumes "run_ops trie_node_new ops = Inr t" and "key \<notin> inserted_keys ops"
  shows "patrie_lookup t key = Inr (None, t)"
proof -
  from run_ops_new [of ops] assms(1) have t: "trie_inv t" "dom (peek t) = inserted_keys ops"
    by auto
  with assms(2) have n: "peek t key = None" by auto
  from patrie_lookup_ok [OF t(1), of key] n show ?thesis by auto
qed

text \<open>
  The theorem at the three keys of the example program: a strict prefix, an extension,
  a key with no matching first symbol and the empty key are not found.
\<close>

theorem lookup_never_inserted_witness:
  "\<exists>t :: (char, real) TrieNode.
     run_ops trie_node_new
       [Insert ''phenotype'' 0.72 3 (Some ''root concept''),
        Insert ''phenovalude'' 0.85 8 (Some ''value metric''),
        Insert ''phoneme'' 0.45 4 (Some ''sound unit'')] = Inr t
     \<and> patrie_lookup t ''pheno'' = Inr (None, t)
     \<and> patrie_lookup t ''phenotypes'' = Inr (None, t)
     \<and> patrie_lookup t ''x'' = Inr (None, t)
     \<and> patrie_lookup t [] = Inr (None, t)"
proof -
  let ?ops = "[Insert ''phenotype'' 0.72 3 (Some ''root concept''),
        Insert ''phenovalude'' 0.85 8 (Some ''value metric''),
        Insert ''phoneme'' 0.45 4 (Some ''sound unit'')] :: (char, real) op list"
  from run_ops_new [of ?ops] obtain t where t: "run_ops trie_node_new ?ops = Inr t"
    by (elim exE conjE) (rule that)
  have "patrie_lookup t ''pheno'' = Inr (None, t)"
    by (rule lookup_never_inserted [OF t]) simp
  moreover have "patrie_lookup t ''phenotypes'' = Inr (None, t)"
    by (rule lookup_never_inserted [OF t]) simp
  moreover have "patrie_lookup t ''x'' = Inr (None, t)"
    by (rule lookup_never_inserted [OF t]) simp
  moreover have "patrie_lookup t [] = Inr (None, t)"
    by (rule lookup_never_inserted [OF t]) simp
  ultimately show ?thesis using t by (intro exI [of _ t] conjI)
qed

text \<open>
  Claim C7 (terminal iff payload). In every trie reached from a new trie by inserts,
  lookups and enumerations, a node has a payload exactly when it is marked terminal; so
  \<^verbatim>\<open>cur->p->visits++\<close> in \<^verbatim>\<open>patrie_lookup\<close> never dereferences NULL, for any key.
\<close>

theorem terminal_iff_payload:
  fixes ops :: "('k::linorder, 'd) op list"
  shows "\<exists>t. run_ops trie_node_new ops = Inr t
           \<and> every_node (\<lambda>n. terminal n \<longleftrightarrow> pheno n \<noteq> None) t
           \<and> (\<forall>key. patrie_lookup t key \<noteq> Inl NullDeref)"
proof -
  from run_ops_new [of ops] obtain t where
    t: "run_ops trie_node_new ops = Inr t" "trie_inv t"
    by (elim exE conjE) (rule that)
  from t(2) have "every_node node_ok t" by (simp add: trie_inv_def)
  then have 1: "every_node (\<lambda>n. terminal n \<longleftrightarrow> pheno n \<noteq> None) t"
    by (rule every_node_mono) (simp add: node_ok_def)
  have 2: "patrie_lookup t key \<noteq> Inl NullDeref" for key
    using patrie_lookup_ok [OF t(2), of key] by auto
  from t(1) 1 2 show ?thesis by (intro exI [of _ t] conjI allI)
qed

text \<open>The theorem after one insert, a successful lookup and a failed lookup.\<close>

theorem terminal_iff_payload_witness:
  "run_ops (trie_node_new :: (char, real) TrieNode)
     [Insert ''ab'' 0.72 3 (Some ''root concept''), Lookup ''ab'', Lookup ''a'']
   = Inr (TrieNode False None
       (AVLChild CHR ''a''
         (TrieNode False None
           (AVLChild CHR ''b''
             (TrieNode True
               (Some \<lparr>score = 0.72, visits = 1, qual = 3, meta = Some ''root concept''\<rparr>)
               Null)
             1 Null Null))
         1 Null Null))
   \<and> every_node (\<lambda>n. terminal n \<longleftrightarrow> pheno n \<noteq> None)
       (TrieNode False None
       (AVLChild CHR ''a''
         (TrieNode False None
           (AVLChild CHR ''b''
             (TrieNode True
               (Some \<lparr>score = 0.72 :: real, visits = 1, qual = 3, meta = Some ''root concept''\<rparr>)
               Null)
             1 Null Null))
         1 Null Null))
   \<and> patrie_lookup
       (TrieNode False None
       (AVLChild CHR ''a''
         (TrieNode False None
           (AVLChild CHR ''b''
             (TrieNode True
               (Some \<lparr>score = 0.72 :: real, visits = 1, qual = 3, meta = Some ''root concept''\<rparr>)
               Null)
             1 Null Null))
         1 Null Null)) ''ab'' \<noteq> Inl NullDeref"
  (is "?run = Inr ?T \<and> ?inv \<and> ?nf")
proof -
  have e: "?run = Inr ?T"
    by (simp add: trie_node_new_def insert_or_get_def phenotype_new_def)
  from terminal_iff_payload [of "[Insert ''ab'' 0.72 3 (Some ''root concept''), Lookup ''ab'',
      Lookup ''a''] :: (char, real) op list"]
  have "?inv \<and> ?nf" unfolding e by (elim exE conjE) simp
  with e show ?thesis by (intro conjI) simp_all
qed

text \<open>
  Claim C8 (insert-or-get on a present key). For every child set (its keys strictly
  ascending, as they are in every reachable trie by C3) and every key that has an entry
  in it, the insert-or-get step of \<^verbatim>\<open>patrie_insert\<close> returns the child stored in that
  entry and leaves the child set as it is: the same entries, the same shape, the same
  cached heights, no rotation. (The search finds the entry, so \<^verbatim>\<open>avl_insert_child\<close> is
  not called.)
\<close>

theorem insert_or_get_present:
  assumes "keys_sorted cs" and "(ch, c) \<in> set (entries cs)"
  shows "insert_or_get cs ch = Inr (cs, c)"
proof -
  from assms(1) have "distinct (map fst (entries cs))"
    by (simp add: keys_sorted_def strict_sorted_iff)
  with assms(2) have "map_of (entries cs) ch = Some c" by simp
  with assms(1) have "avl_find_child cs ch = Some c"
    by (simp add: avl_find_child_map_of)
  then show ?thesis by (simp add: insert_or_get_def)
qed

text \<open>
  The theorem at a child set with the keys \<open>e\<close>, \<open>h\<close>, \<open>o\<close> and the entry of \<open>o\<close>, which
  is not at the root of the set.
\<close>

theorem insert_or_get_present_witness:
  "insert_or_get
     (AVLChild CHR ''h'' (TrieNode False None Null :: (char, real) TrieNode) 2
        (AVLChild CHR ''e'' (TrieNode False None Null) 1 Null Null)
        (AVLChild CHR ''o''
           (TrieNode True (Some \<lparr>score = 0.72, visits = 0, qual = 3, meta = None\<rparr>) Null)
           1 Null Null))
     CHR ''o''
   = Inr (AVLChild CHR ''h'' (TrieNode False None Null) 2
            (AVLChild CHR ''e'' (TrieNode False None Null) 1 Null Null)
            (AVLChild CHR ''o''
               (TrieNode True (Some \<lparr>score = 0.72, visits = 0, qual = 3, meta = None\<rparr>) Null)
               1 Null Null),
          TrieNode True (Some \<lparr>score = 0.72, visits = 0, qual = 3, meta = None\<rparr>) Null)"
  by (rule insert_or_get_present) (simp_all add: keys_sorted_def)

text \<open>
  What the code does of claim C9 (empty key) when \<^verbatim>\<open>meta\<close> is NULL or a text outside the
  payload of the root: inserting the empty key into any trie succeeds and changes only
  the root, which is marked terminal and carries a payload with the given score, flags
  and meta, its children untouched. A lookup of the empty key then succeeds and returns
  that payload (with one more visit), and \<^verbatim>\<open>patrie_enumerate\<close> calls the visitor on the
  empty key first, every later call being on a non-empty key.
\<close>

lemma empty_key_insert:
  "\<exists>ph rest.
     patrie_insert t [] sc q (meta_arg m) = Inr (TrieNode True (Some ph) (children t))
     \<and> score ph = sc \<and> qual ph = q \<and> meta ph = m
     \<and> patrie_lookup (TrieNode True (Some ph) (children t)) [] =
         Inr (Some (ph\<lparr>visits := visits ph + 1\<rparr>),
              TrieNode True (Some (ph\<lparr>visits := visits ph + 1\<rparr>)) (children t))
     \<and> patrie_enumerate (TrieNode True (Some ph) (children t)) = ([], Some ph) # rest
     \<and> [] \<notin> fst ` set rest"
proof -
  obtain tt p cs where t: "t = TrieNode tt p cs" by (cases t)
  let ?ph = "stored_by_insert p sc q m"
  from tokens_terminal [of "Some ?ph" cs] obtain rest where
    r: "tokens (TrieNode True (Some ?ph) cs) = ([], Some ?ph) # rest" "[] \<notin> fst ` set rest"
    by (elim exE conjE) (rule that)
  have i: "patrie_insert t [] sc q (meta_arg m) = Inr (TrieNode True (Some ?ph) (children t))"
    using t by (simp add: patrie_insert_Nil_meta_arg del: patrie_insert.simps)
  have f: "score ?ph = sc" "qual ?ph = q" "meta ?ph = m"
    by (simp_all add: stored_by_insert_def split: option.splits)
  have l: "patrie_lookup (TrieNode True (Some ?ph) (children t)) [] =
         Inr (Some (?ph\<lparr>visits := visits ?ph + 1\<rparr>),
              TrieNode True (Some (?ph\<lparr>visits := visits ?ph + 1\<rparr>)) (children t))"
    by simp
  have e: "patrie_enumerate (TrieNode True (Some ?ph) (children t)) = ([], Some ?ph) # rest"
    using r(1) t by (simp add: patrie_enumerate_tokens del: tokens.simps)
  from i f l e r(2) show ?thesis
    by (intro exI [of _ ?ph] exI [of _ rest] conjI)
qed

text \<open>
  Claim C9 (empty key): inserting the empty key marks the root terminal with the given
  payload, whatever the payload. The code misses it, by the defect of C5, when the root
  already has a payload and \<^verbatim>\<open>meta\<close> is the text of that payload handed back: after the
  empty key was inserted with meta \<open>''hello''\<close> and looked up, the pointer \<^verbatim>\<open>p->meta\<close>
  reads \<open>''hello''\<close>, and \<^verbatim>\<open>patrie_insert\<close> of the empty key with that pointer frees the
  text before it reads it.
\<close>

theorem empty_key_own_meta_faults:
  "run_ops (trie_node_new :: (char, real) TrieNode)
     [Insert [] 0.5 1 (Some ''hello''), Lookup []]
   = Inr (TrieNode True
        (Some \<lparr>score = 0.5, visits = 1, qual = 1, meta = Some ''hello''\<rparr>) Null)
   \<and> my_strdup
       (Option.bind
          (peek (TrieNode True
             (Some \<lparr>score = 0.5 :: real, visits = 1, qual = 1, meta = Some ''hello''\<rparr>)
             (Null :: (char, (char, real) TrieNode) AVLChild)) []) meta)
       (IntoOwnMeta 0) = Inr (Some ''hello'')
   \<and> patrie_insert
       (TrieNode True
          (Some \<lparr>score = 0.5 :: real, visits = 1, qual = 1, meta = Some ''hello''\<rparr>)
          (Null :: (char, (char, real) TrieNode) AVLChild))
       [] 0.6 2 (IntoOwnMeta 0) = Inl InvalidRead"
  by (simp add: trie_node_new_def phenotype_new_def)

text \<open>
  Claim C10 (failed-lookup atomicity). For every trie and every key, when
  \<^verbatim>\<open>patrie_lookup\<close> returns NULL (not found), the trie after the call is the trie before
  it: no node, child set, terminal flag or payload field, \<^verbatim>\<open>visits\<close> included, has
  changed. No invariant of the trie is needed.
\<close>

theorem lookup_not_found_unchanged:
  "patrie_lookup t key = Inr (None, t') \<Longrightarrow> t' = t"
proof (induction key arbitrary: t t')
case Nil
  then show ?case by (cases t) (auto split: if_splits option.splits)
next
  case (Cons ch key)
  obtain tt p cs where t: "t = TrieNode tt p cs" by (cases t)
  show ?case
  proof (cases "avl_find_child cs ch")
    case None
    with Cons.prems t show ?thesis by simp
  next
    case (Some c)
    with Cons.prems t obtain c' where
      c': "patrie_lookup c key = Inr (None, c')" "t' = TrieNode tt p (avl_store_child cs ch c')"
      by (auto split: sum.splits)
    from Cons.IH [OF c'(1)] have "c' = c" .
    with c'(2) Some t show ?thesis by (simp add: avl_store_child_same)
  qed
qed

text \<open>
  The theorem at a trie holding \<open>''ab''\<close>: a strict prefix, an extension and a key
  with no matching first symbol are not found, and leave the trie as it is.
\<close>

theorem lookup_not_found_unchanged_witness:
  "\<exists>t :: (char, real) TrieNode.
     run_ops trie_node_new [Insert ''ab'' 0.72 3 (Some ''root concept''), Lookup ''ab''] = Inr t
     \<and> patrie_lookup t ''a'' = Inr (None, t)
     \<and> patrie_lookup t ''abc'' = Inr (None, t)
     \<and> patrie_lookup t ''b'' = Inr (None, t)"
proof -
  let ?t = "TrieNode False None
       (AVLChild CHR ''a''
         (TrieNode False None
           (AVLChild CHR ''b''
             (TrieNode True
               (Some \<lparr>score = 0.72 :: real, visits = 1, qual = 3, meta = Some ''root concept''\<rparr>)
               Null)
             1 Null Null))
         1 Null Null)"
  have r: "run_ops trie_node_new [Insert ''ab'' 0.72 3 (Some ''root concept''), Lookup ''ab'']
             = Inr ?t"
    by (simp add: trie_node_new_def insert_or_get_def phenotype_new_def)
  have a: "\<exists>t'. patrie_lookup ?t ''a'' = Inr (None, t')"
    and b: "\<exists>t'. patrie_lookup ?t ''abc'' = Inr (None, t')"
    and c: "\<exists>t'. patrie_lookup ?t ''b'' = Inr (None, t')"
    by simp_all
  from a b c lookup_not_found_unchanged [of ?t] have
    "patrie_lookup ?t ''a'' = Inr (None, ?t)" "patrie_lookup ?t ''abc'' = Inr (None, ?t)"
    "patrie_lookup ?t ''b'' = Inr (None, ?t)"
    by blast+
  with r show ?thesis by blast
qed

end
